theory Spec2Isabelle
  imports Main "HOL-Library.AList"
begin

section \<open>Client data model (frontend/lib/api.ts)\<close>

text \<open>
  The interface \<open>Message\<close> of \<open>frontend/lib/api.ts\<close>. The field \<open>correlationId\<close> is
  optional in the source. The field \<open>createdAt\<close> is an ISO date string in the source;
  every use of it in the reconciliation code goes through \<open>new Date(...).getTime()\<close>, so
  the model stores that instant, in milliseconds since the epoch.
\<close>

record message =
  msg_id :: string
  correlationId :: "string option"
  phoneNumber :: string
  msg_text :: string
  status :: string
  createdAt :: int

text \<open>
  The expression \<open>m.correlationId || m.id\<close>: JavaScript's \<open>||\<close> takes the right operand
  when the left one is \<open>undefined\<close> or the empty string.
\<close>

definition corrKey :: "message \<Rightarrow> string" where
  "corrKey m = (case correlationId m of
                  None \<Rightarrow> msg_id m
                | Some c \<Rightarrow> (if c = [] then msg_id m else c))"

section \<open>Reconciliation merge (MessagingInterface.tsx, loadMessages)\<close>

text \<open>
  A JavaScript \<open>Map\<close> keeps its entries in the order in which their keys were first
  inserted; \<open>set\<close> on a key that is present replaces the value where it stands. This is
  an association list under \<open>AList.update\<close>.
\<close>

definition Map_set :: "'k \<Rightarrow> 'v \<Rightarrow> ('k \<times> 'v) list \<Rightarrow> ('k \<times> 'v) list" where
  "Map_set k v m = AList.update k v m"

definition Map_has :: "'k \<Rightarrow> ('k \<times> 'v) list \<Rightarrow> bool" where
  "Map_has k m = (map_of m k \<noteq> None)"

definition Map_values :: "('k \<times> 'v) list \<Rightarrow> 'v list" where
  "Map_values m = map snd m"

definition persistedIds :: "message list \<Rightarrow> string set" where
  "persistedIds data = set (map msg_id data)"

text \<open>\<open>filter(Boolean)\<close> removes the empty keys.\<close>

definition persistedCorrelationIds :: "message list \<Rightarrow> string set" where
  "persistedCorrelationIds data = set (filter (\<lambda>k. k \<noteq> []) (map corrKey data))"

text \<open>
  The predicate of \<open>currentMessages.filter\<close>; \<open>now\<close> is the value of \<open>Date.now()\<close>.
\<close>

definition keepOptimistic :: "int \<Rightarrow> message list \<Rightarrow> message \<Rightarrow> bool" where
  "keepOptimistic now data m =
     (if corrKey m \<noteq> [] \<and> corrKey m \<in> persistedCorrelationIds data then False
      else if msg_id m \<in> persistedIds data then False
      else if now - createdAt m > 2500 then False
      else True)"

definition addPersisted :: "(string \<times> message) list \<Rightarrow> message \<Rightarrow> (string \<times> message) list" where
  "addPersisted mergedMap msg = Map_set (corrKey msg) msg mergedMap"

definition addOptimistic :: "(string \<times> message) list \<Rightarrow> message \<Rightarrow> (string \<times> message) list" where
  "addOptimistic mergedMap msg =
     (if \<not> Map_has (corrKey msg) mergedMap then Map_set (corrKey msg) msg mergedMap
      else mergedMap)"

text \<open>
  \<open>Array.prototype.sort\<close> is stable, and the comparator is the difference of the two
  instants: a stable sort by \<open>createdAt\<close>.
\<close>

definition sortByCreatedAt :: "message list \<Rightarrow> message list" where
  "sortByCreatedAt ms = sort_key createdAt ms"

text \<open>
  The new value of \<open>prev[phoneNumber]\<close> computed by the state update of \<open>loadMessages\<close>
  from the fetched list \<open>data\<close> and the current list.
\<close>

definition mergeMessages :: "int \<Rightarrow> bool \<Rightarrow> message list \<Rightarrow> message list \<Rightarrow> message list" where
  "mergeMessages now preserveOptimistic data currentMessages =
     (if preserveOptimistic \<and> length currentMessages > 0 then
        (let optimisticMessages = filter (keepOptimistic now data) currentMessages;
             mergedMap = foldl addOptimistic (foldl addPersisted [] data) optimisticMessages
         in sortByCreatedAt (Map_values mergedMap))
      else sortByCreatedAt data)"

text \<open>
  The state \<open>messages\<close> is an object from phone numbers to message lists;
  \<open>prev[phoneNumber] || []\<close> reads it.
\<close>

type_synonym messages_state = "string \<rightharpoonup> message list"

definition messagesOf :: "messages_state \<Rightarrow> string \<Rightarrow> message list" where
  "messagesOf prev phone = (case prev phone of None \<Rightarrow> [] | Some ms \<Rightarrow> ms)"

text \<open>
  \<open>loadMessages\<close> after the fetch: \<open>Inr data\<close> when \<open>getUserMessages\<close> resolved,
  \<open>Inl e\<close> when it threw.
\<close>

definition loadMessages ::
  "int \<Rightarrow> string \<Rightarrow> bool \<Rightarrow> string + message list \<Rightarrow> messages_state \<Rightarrow> messages_state" where
  "loadMessages now phone preserveOptimistic fetched prev =
     (case fetched of
        Inr data \<Rightarrow> prev(phone \<mapsto> mergeMessages now preserveOptimistic data (messagesOf prev phone))
      | Inl e \<Rightarrow> (if \<not> preserveOptimistic then prev(phone \<mapsto> messagesOf prev phone) else prev))"

section \<open>Push-channel status events (MessagingInterface.tsx, setupWebSocket)\<close>

record status_event =
  requestId :: string
  ev_status :: string

definition eventMatches :: "status_event \<Rightarrow> message \<Rightarrow> bool" where
  "eventMatches ev msg = (corrKey msg = requestId ev \<or> msg_id msg = requestId ev)"

text \<open>
  The callback given to \<open>subscribeToSmsStatus\<close>: the updated list, and whether the
  delayed reload \<open>setTimeout(() => loadMessages(phoneNumber, true), 1000)\<close> is scheduled.
\<close>

definition onStatusEvent :: "status_event \<Rightarrow> message list \<Rightarrow> message list \<times> bool" where
  "onStatusEvent ev currentMessages =
     (let updated = map (\<lambda>msg. if eventMatches ev msg
                               then msg\<lparr>status := ev_status ev\<rparr> else msg) currentMessages;
          found = (\<exists>msg \<in> set currentMessages. eventMatches ev msg)
      in (updated, \<not> found \<and> length currentMessages > 0))"


section \<open>Client API (frontend/lib/api.ts)\<close>

text \<open>
  What \<open>await storeApi.get(...)\<close> or \<open>await smsApi.post(...)\<close> yields: the promise is
  fulfilled with the response data, or rejected with an error that has a \<open>message\<close> and,
  when the server answered, a \<open>response\<close> (HTTP status; \<open>data.message\<close> and \<open>data.error\<close>
  of the body, empty when absent).
\<close>

record error_response =
  http_status :: nat
  data_message :: string
  data_error :: string

datatype 'a axios_result =
    Fulfilled 'a
  | Rejected string "error_response option"

record SendSmsResponse =
  resp_requestId :: string
  resp_status :: string
  timestamp :: int

text \<open>The chain \<open>a || b || c || d\<close> over strings: the first non-empty operand, else the last.\<close>

definition firstTruthy :: "string list \<Rightarrow> string \<Rightarrow> string" where
  "firstTruthy xs d = (case filter (\<lambda>x. x \<noteq> []) xs of [] \<Rightarrow> d | x # _ \<Rightarrow> x)"

text \<open>\<open>smsApiClient.sendSms\<close>; \<open>base\<close> is \<open>SMS_API_BASE\<close>. \<open>Inl\<close> is the thrown \<open>Error\<close>'s message.\<close>

definition sendSms :: "string \<Rightarrow> SendSmsResponse axios_result \<Rightarrow> string + SendSmsResponse" where
  "sendSms base outcome =
     (case outcome of
        Fulfilled data \<Rightarrow> Inr data
      | Rejected emsg None \<Rightarrow>
          Inl (''Network Error: Unable to connect to SMS service at '' @ base @
               ''. Please ensure the Java service is running on port 8081.'')
      | Rejected emsg (Some r) \<Rightarrow>
          Inl (firstTruthy [data_message r, data_error r, emsg] ''Failed to send SMS''))"

text \<open>
  An object of the array in \<open>response.data\<close>, with the fields of \<open>Message\<close>:
  \<open>createdAt\<close> may be missing; \<open>msg.createdAt || new Date().toISOString()\<close> then puts
  the current instant.
\<close>

record wire_message =
  w_id :: string
  w_correlationId :: "string option"
  w_phoneNumber :: string
  w_text :: string
  w_status :: string
  w_createdAt :: "int option"

definition fromWire :: "int \<Rightarrow> wire_message \<Rightarrow> message" where
  "fromWire now w =
     \<lparr>msg_id = w_id w, correlationId = w_correlationId w, phoneNumber = w_phoneNumber w,
      msg_text = w_text w, status = w_status w,
      createdAt = (case w_createdAt w of None \<Rightarrow> now | Some t \<Rightarrow> t)\<rparr>"

text \<open>
  The type parameter \<open>Message[]\<close> of \<open>storeApi.get\<close> checks nothing at run time. What
  \<open>response.data\<close> of a received response can be: a falsy value (\<open>null\<close>, for which
  \<open>response.data || []\<close> is the empty array), an array, or another value (an object, a
  string), which has no method \<open>map\<close>. An element of the array is \<open>null\<close> (\<open>None\<close>) or an
  object.
\<close>

datatype response_data =
    FalsyData
  | ArrayData "wire_message option list"
  | OtherData

text \<open>
  What the \<open>try\<close> block can throw: the rejection of the request, with its \<open>message\<close> and,
  when the server answered, its \<open>response\<close>; or a \<open>TypeError\<close>, which has no \<open>response\<close>.
\<close>

datatype thrown =
    AxiosError string "error_response option"
  | TypeError


text \<open>
  The callback of \<open>map\<close> reads \<open>msg.createdAt\<close>: on a \<open>null\<close> element this is a
  \<open>TypeError\<close>, and the whole \<open>map\<close> is left.
\<close>

fun mapMessages :: "int \<Rightarrow> wire_message option list \<Rightarrow> thrown + message list" where
  "mapMessages now [] = Inr []"
| "mapMessages now (None # es) = Inl TypeError"
| "mapMessages now (Some w # es) =
     (case mapMessages now es of Inl e \<Rightarrow> Inl e | Inr ms \<Rightarrow> Inr (fromWire now w # ms))"

text \<open>The \<open>try\<close> block of \<open>storeApiClient.getUserMessages\<close>; \<open>now\<close> is the current instant.\<close>

definition getUserMessages_try ::
  "int \<Rightarrow> response_data axios_result \<Rightarrow> thrown + message list" where
  "getUserMessages_try now outcome =
     (case outcome of
        Rejected emsg r \<Rightarrow> Inl (AxiosError emsg r)
      | Fulfilled FalsyData \<Rightarrow> Inr []
      | Fulfilled (ArrayData es) \<Rightarrow> mapMessages now es
      | Fulfilled OtherData \<Rightarrow> Inl TypeError)"


text \<open>
  Modelled from the spec: the send entry point. The controller of \<open>sms-sender\<close> that
  serves \<open>POST /v1/sms/send\<close>, to which \<open>smsApiClient.sendSms\<close> posts, is not among the
  sources (\<open>EchoService.echo\<close> serves \<open>/v1/echo\<close> and returns the phone number, the
  message and a timestamp). The specification (section 6): the send entry point accepts
  \<open>{recipient, text}\<close> and returns \<open>{correlationId, status, timestamp}\<close> synchronously;
  (section 1) the upstream Sender accepts a send request and returns a request identifier
  and an initial status. The Sender is a parameter: it gives the identifier, the status
  and the timestamp for a request. The request and the response have the client's
  shapes \<open>SendSmsRequest\<close> and \<open>SendSmsResponse\<close> of \<open>frontend/lib/api.ts\<close>.
\<close>

record SendSmsRequest =
  req_phoneNumber :: string
  req_message :: string

definition sendEntryPoint ::
  "(SendSmsRequest \<Rightarrow> string \<times> string \<times> int) \<Rightarrow> SendSmsRequest \<Rightarrow> SendSmsResponse" where
  "sendEntryPoint sender request =
     (case sender request of
        (identifier, initialStatus, time) \<Rightarrow>
          \<lparr>resp_requestId = identifier, resp_status = initialStatus, timestamp = time\<rparr>)"

section \<open>In-memory store (sms-store/internal/store, MemoryStore)\<close>

text \<open>The struct \<open>models.Message\<close>; \<open>CreatedAt\<close> is an instant.\<close>

record Message =
  ID :: string
  UserID :: string
  PhoneNumber :: string
  Text :: string
  Status :: string
  CreatedAt :: int

text \<open>
  The store is its slice \<open>messages\<close>; every method holds the mutex for its whole body, so
  a method is one step on the slice. Each returns the new store and its results
  (\<open>Inr\<close> when the error is \<open>nil\<close>).
\<close>

type_synonym MemoryStore = "Message list"

definition NewMemoryStore :: MemoryStore where
  "NewMemoryStore = []"

definition Save :: "Message \<Rightarrow> MemoryStore \<Rightarrow> MemoryStore \<times> (string + Message)" where
  "Save msg s = (s @ [msg], Inr msg)"

definition List_store :: "MemoryStore \<Rightarrow> MemoryStore \<times> (string + Message list)" where
  "List_store s = (s, Inr s)"

text \<open>The store after \<open>n\<close> calls \<open>Save(msg)\<close>.\<close>

fun SaveTimes :: "nat \<Rightarrow> Message \<Rightarrow> MemoryStore \<Rightarrow> MemoryStore" where
  "SaveTimes 0 msg s = s"
| "SaveTimes (Suc n) msg s = SaveTimes n msg (fst (Save msg s))"

section \<open>Event ingestion (specification 4.1, 4.2)\<close>

text \<open>
  Modelled from the spec: the application of a delivery-status event to the message store.
  The store that \<open>main.go\<close> builds (\<open>store.NewMongoStore\<close>) and the Kafka consumer that
  applies the events to it are not among the sources. The specification (6): an event is
  \<open>{correlationId, status, eventTime}\<close>; (3) the statuses \<open>SUCCESS\<close> and \<open>FAILED\<close> are
  terminal; (4.1) the store holds one record per correlation key. The record has what the
  merge policy reads and writes: the status, \<open>createdAt\<close> and the last-applied event
  time.
\<close>

record delivery_event =
  ev_correlationId :: string
  ev_newStatus :: string
  eventTime :: int

record stored_record =
  rec_status :: string
  rec_createdAt :: int
  rec_lastApplied :: int

type_synonym message_store = "string \<rightharpoonup> stored_record"

text \<open>
  Modelled from the spec: the terminal statuses (3): \<open>SUCCESS\<close> and \<open>FAILED\<close>.
\<close>

definition terminal :: "string \<Rightarrow> bool" where
  "terminal st = (st = ''SUCCESS'' \<or> st = ''FAILED'')"

text \<open>
  Modelled from the spec: the merge policy on upsert (4.2, steps 1 to 3). Look the record
  up by correlation id. If none exists, insert a record with the event's status and the
  event time as \<open>createdAt\<close> (the event just applied is also the last applied). If one
  exists: if its status is terminal and the incoming status differs, discard; else if
  the incoming event time is earlier than the last-applied event time, discard, unless
  the incoming status is terminal and the existing one is not; else apply: set the
  status and the last-applied event time.
\<close>

definition applyEvent :: "delivery_event \<Rightarrow> message_store \<Rightarrow> message_store" where
  "applyEvent ev store =
     (case store (ev_correlationId ev) of
        None \<Rightarrow>
          store(ev_correlationId ev \<mapsto>
            \<lparr>rec_status = ev_newStatus ev, rec_createdAt = eventTime ev,
             rec_lastApplied = eventTime ev\<rparr>)
      | Some existing \<Rightarrow>
          (if terminal (rec_status existing) \<and> ev_newStatus ev \<noteq> rec_status existing then store
           else if eventTime ev < rec_lastApplied existing \<and>
                   \<not> (terminal (ev_newStatus ev) \<and> \<not> terminal (rec_status existing))
           then store
           else store(ev_correlationId ev \<mapsto>
                  existing\<lparr>rec_status := ev_newStatus ev, rec_lastApplied := eventTime ev\<rparr>)))"

text \<open>
  Modelled from the spec: the store after the event is applied \<open>n\<close> times, as the
  idempotence property (8) speaks of it.
\<close>

fun applyTimes :: "nat \<Rightarrow> delivery_event \<Rightarrow> message_store \<Rightarrow> message_store" where
  "applyTimes 0 ev store = store"
| "applyTimes (Suc n) ev store = applyTimes n ev (applyEvent ev store)"

section \<open>Store HTTP handlers (sms-store/internal/httpapi/handlers.go)\<close>

text \<open>
  A Go string is a sequence of bytes. The functions of Go's package \<open>strings\<close> that the
  handlers use and that compare bytes only: \<open>HasPrefix\<close>, \<open>HasSuffix\<close>, \<open>TrimPrefix\<close>,
  \<open>TrimSuffix\<close>, \<open>Contains\<close>.
\<close>

definition HasPrefix :: "string \<Rightarrow> string \<Rightarrow> bool" where
  "HasPrefix s prefix = (take (length prefix) s = prefix)"

definition HasSuffix :: "string \<Rightarrow> string \<Rightarrow> bool" where
  "HasSuffix s suffix =
     (length suffix \<le> length s \<and> drop (length s - length suffix) s = suffix)"

definition TrimPrefix :: "string \<Rightarrow> string \<Rightarrow> string" where
  "TrimPrefix s prefix = (if HasPrefix s prefix then drop (length prefix) s else s)"

definition TrimSuffix :: "string \<Rightarrow> string \<Rightarrow> string" where
  "TrimSuffix s suffix = (if HasSuffix s suffix then take (length s - length suffix) s else s)"

fun Contains :: "string \<Rightarrow> string \<Rightarrow> bool" where
  "Contains [] substr = (substr = [])"
| "Contains (c # cs) substr = (HasPrefix (c # cs) substr \<or> Contains cs substr)"

text \<open>
  \<open>strings.TrimSpace\<close> decodes UTF-8 and removes the leading and trailing white space
  of Unicode. It is a function of the standard library, and the handlers' model takes it
  as the parameter \<open>trimSpace\<close>: what is proved of a handler holds for every function in
  its place, the library's among them. On a string of ASCII bytes the library's function
  removes the leading and trailing bytes among tab, line feed, vertical tab, form feed,
  carriage return and space; \<open>TrimSpaceASCII\<close> does this, and stands for it in the
  examples, whose paths are ASCII.
\<close>

definition isSpaceASCII :: "char \<Rightarrow> bool" where
  "isSpaceASCII c = (c \<in> {CHR 0x09, CHR 0x0A, CHR 0x0B, CHR 0x0C, CHR 0x0D, CHR '' ''})"

definition TrimSpaceASCII :: "string \<Rightarrow> string" where
  "TrimSpaceASCII s = rev (dropWhile isSpaceASCII (rev (dropWhile isSpaceASCII s)))"

text \<open>
  A Go slice is \<open>nil\<close> (\<open>None\<close>) or holds elements (\<open>Some\<close>, the empty slice included);
  \<open>encoding/json\<close> writes \<open>nil\<close> as \<open>null\<close> and a slice as an array.
\<close>

type_synonym 'a slice = "'a list option"

text \<open>What a handler writes: the status code and the value given to the JSON encoder.\<close>

datatype payload =
    ErrorResponse string string
  | MessageList "Message slice"
  | PhoneNumberList "string slice"
  | DeleteResult string int string




record response =
  statusCode :: nat
  body :: payload

definition writeJSON :: "nat \<Rightarrow> payload \<Rightarrow> response" where
  "writeJSON st p = \<lparr>statusCode = st, body = p\<rparr>"

definition writeError :: "nat \<Rightarrow> string \<Rightarrow> string \<Rightarrow> response" where
  "writeError st code msg = writeJSON st (ErrorResponse code msg)"

definition StatusOK :: nat where "StatusOK = 200"
definition StatusBadRequest :: nat where "StatusBadRequest = 400"
definition StatusInternalServerError :: nat where "StatusInternalServerError = 500"

text \<open>
  The interface \<open>store.Store\<close> is not among the sources; the handlers only call its
  methods. A method is a parameter of the handler's model: it gives the pair that the
  call returns (\<open>Inl\<close> the non-nil error, \<open>Inr\<close> the value returned with a nil error). A
  handler returns its response and the store calls it made, in order.
\<close>

datatype store_call =
    FindByPhoneNumber string
  | GetDistinctPhoneNumbers
  | DeleteByPhoneNumber string

text \<open>The recipient taken from the path \<open>/v1/user/{phoneNumber}/messages\<close>.\<close>

definition extractPhoneNumber :: "(string \<Rightarrow> string) \<Rightarrow> string \<Rightarrow> string" where
  "extractPhoneNumber trimSpace path =
     trimSpace (TrimSuffix (TrimPrefix path ''/v1/user/'') ''/messages'')"

definition GetUserMessages ::
  "(string \<Rightarrow> string) \<Rightarrow> (string \<Rightarrow> string + Message slice) \<Rightarrow> string \<Rightarrow>
   response \<times> store_call list" where
  "GetUserMessages trimSpace findByPhoneNumber path =
     (if \<not> HasPrefix path ''/v1/user/'' \<or> \<not> HasSuffix path ''/messages'' then
        (writeError StatusBadRequest ''BAD_REQUEST'' ''invalid URL path'', [])
      else
        (let phoneNumber = extractPhoneNumber trimSpace path in
         if phoneNumber = [] \<or> Contains phoneNumber ''/'' then
           (writeError StatusBadRequest ''BAD_REQUEST'' ''invalid phoneNumber'', [])
         else
           (case findByPhoneNumber phoneNumber of
              Inl err \<Rightarrow>
                (writeError StatusInternalServerError ''INTERNAL'' ''could not retrieve messages'',
                 [FindByPhoneNumber phoneNumber])
            | Inr messages \<Rightarrow>
                (writeJSON StatusOK (MessageList messages), [FindByPhoneNumber phoneNumber]))))"

definition GetConversations :: "(string + string slice) \<Rightarrow> response \<times> store_call list" where
  "GetConversations getDistinctPhoneNumbers =
     (case getDistinctPhoneNumbers of
        Inl err \<Rightarrow>
          (writeError StatusInternalServerError ''INTERNAL'' ''could not retrieve conversations'',
           [GetDistinctPhoneNumbers])
      | Inr phoneNumbers \<Rightarrow>
          (writeJSON StatusOK (PhoneNumberList phoneNumbers), [GetDistinctPhoneNumbers]))"


section \<open>Send and delivery polling (MessagingInterface.tsx, handleSend)\<close>

definition pollDelays :: "nat list" where
  "pollDelays = [300, 600, 800, 1200]"

text \<open>
  A timeout set by \<open>setTimeout(() => pollForMessage(attempt), delay)\<close>: its handle, the
  call of \<open>handleSend\<close> whose closure it runs (calls are numbered in the order in which
  they reach the polling code), the attempt and the delay in milliseconds.
\<close>

record timer =
  timer_id :: nat
  timer_send :: nat
  timer_attempt :: nat
  timer_delay :: nat

text \<open>
  The variables that \<open>pollForMessage\<close> captures in one call of \<open>handleSend\<close>:
  \<open>selectedPhoneNumber\<close>, \<open>correlationId\<close> and the flag \<open>messageFound\<close>.
\<close>

record send_closure =
  selectedPhoneNumber :: string
  closure_correlationId :: string
  messageFound :: bool

text \<open>
  The state that sending and polling read and write: the React state \<open>messages\<close>, the
  object \<open>retryTimersRef.current\<close>, the browser's timeouts that are set and have neither
  fired nor been cleared, the calls of \<open>pollForMessage\<close> suspended at
  \<open>await storeApiClient.getUserMessages\<close> (send and attempt), the closures, the next
  timer handle, and two logs of calls made: the fetches that \<open>pollForMessage\<close> issued
  (send and attempt) and the calls \<open>loadMessages(selectedPhoneNumber, true)\<close> that it made
  (by send). The conversation list is left out: polling does not read it.
\<close>

record ui_state =
  messages :: messages_state
  retryTimers :: "string \<rightharpoonup> nat list"
  pendingTimers :: "timer list"
  awaiting :: "(nat \<times> nat) list"
  closures :: "send_closure list"
  nextTimer :: nat
  fetches :: "(nat \<times> nat) list"
  reloads :: "nat list"

definition initialState :: ui_state where
  "initialState =
     \<lparr>messages = Map.empty, retryTimers = Map.empty, pendingTimers = [], awaiting = [],
      closures = [], nextTimer = 0, fetches = [], reloads = []\<rparr>"

text \<open>\<open>setTimeout\<close> returns the handle \<open>nextTimer s\<close>.\<close>

definition setTimeout :: "nat \<Rightarrow> nat \<Rightarrow> nat \<Rightarrow> ui_state \<Rightarrow> ui_state" where
  "setTimeout n attempt delay s =
     s\<lparr>pendingTimers := pendingTimers s @
          [\<lparr>timer_id = nextTimer s, timer_send = n, timer_attempt = attempt, timer_delay = delay\<rparr>],
       nextTimer := Suc (nextTimer s)\<rparr>"

text \<open>
  \<open>if (!retryTimersRef.current[phone]) retryTimersRef.current[phone] = [];\<close> followed by
  \<open>retryTimersRef.current[phone].push(timer)\<close>.
\<close>

definition pushTimer :: "string \<Rightarrow> nat \<Rightarrow> ui_state \<Rightarrow> ui_state" where
  "pushTimer phone tid s =
     s\<lparr>retryTimers := (retryTimers s)
          (phone \<mapsto> (case retryTimers s phone of None \<Rightarrow> [] | Some ts \<Rightarrow> ts) @ [tid])\<rparr>"

text \<open>
  \<open>if (retryTimersRef.current[phone]) { ...forEach(timer => clearTimeout(timer)); ... = []; }\<close>
\<close>

definition clearTimers :: "string \<Rightarrow> ui_state \<Rightarrow> ui_state" where
  "clearTimers phone s =
     (case retryTimers s phone of
        None \<Rightarrow> s
      | Some ts \<Rightarrow>
          s\<lparr>pendingTimers := filter (\<lambda>t. timer_id t \<notin> set ts) (pendingTimers s),
            retryTimers := (retryTimers s)(phone \<mapsto> [])\<rparr>)"

text \<open>
  Setting the timeout for an attempt and recording its handle. Every call in the source
  has \<open>attempt < length pollDelays\<close>.
\<close>

definition schedulePoll :: "nat \<Rightarrow> nat \<Rightarrow> string \<Rightarrow> ui_state \<Rightarrow> ui_state" where
  "schedulePoll n attempt phone s =
     pushTimer phone (nextTimer s) (setTimeout n attempt (pollDelays ! attempt) s)"

definition optimisticMessage :: "string \<Rightarrow> string \<Rightarrow> SendSmsResponse \<Rightarrow> int \<Rightarrow> message" where
  "optimisticMessage phone messageText response now =
     \<lparr>msg_id = resp_requestId response, correlationId = Some (resp_requestId response),
      phoneNumber = phone, msg_text = messageText, status = resp_status response,
      createdAt = now\<rparr>"

text \<open>
  \<open>handleSend\<close> from the point where \<open>await smsApiClient.sendSms\<close> has resolved with
  \<open>response\<close>: \<open>phone\<close> is \<open>selectedPhoneNumber\<close>, \<open>messageText\<close> the trimmed input and
  \<open>now\<close> the instant of \<open>new Date()\<close>.
\<close>

definition handleSendResolved ::
  "string \<Rightarrow> string \<Rightarrow> SendSmsResponse \<Rightarrow> int \<Rightarrow> ui_state \<Rightarrow> ui_state" where
  "handleSendResolved phone messageText response now s =
     (let s1 = s\<lparr>messages := (messages s)
                  (phone \<mapsto> messagesOf (messages s) phone @
                             [optimisticMessage phone messageText response now])\<rparr>;
          s2 = clearTimers phone s1;
          n = length (closures s2);
          s3 = s2\<lparr>closures := closures s2 @
                  [\<lparr>selectedPhoneNumber = phone,
                    closure_correlationId = resp_requestId response,
                    messageFound = False\<rparr>]\<rparr>
      in schedulePoll n 0 phone s3)"

text \<open>\<open>pollForMessage(attempt)\<close> of send \<open>n\<close>, up to the \<open>await\<close>.\<close>

definition pollForMessage_start :: "nat \<Rightarrow> nat \<Rightarrow> ui_state \<Rightarrow> ui_state" where
  "pollForMessage_start n attempt s =
     (if messageFound (closures s ! n) then s
      else s\<lparr>awaiting := awaiting s @ [(n, attempt)], fetches := fetches s @ [(n, attempt)]\<rparr>)"

definition replaceInPlace :: "string \<Rightarrow> message \<Rightarrow> message list \<Rightarrow> message list" where
  "replaceInPlace corrId persistedMessage currentMessages =
     map (\<lambda>msg. if corrKey msg = corrId then persistedMessage else msg) currentMessages"

text \<open>
  \<open>pollForMessage(attempt)\<close> of send \<open>n\<close> after the \<open>await\<close>: \<open>Inr data\<close> when
  \<open>getUserMessages\<close> resolved, \<open>Inl e\<close> when it threw (the \<open>catch\<close> block).
\<close>

definition pollForMessage_resume ::
  "nat \<Rightarrow> nat \<Rightarrow> string + message list \<Rightarrow> ui_state \<Rightarrow> ui_state" where
  "pollForMessage_resume n attempt fetched s =
     (let c = closures s ! n;
          phone = selectedPhoneNumber c;
          corrId = closure_correlationId c
      in case fetched of
           Inr data \<Rightarrow>
             (case find (\<lambda>m. corrKey m = corrId) data of
                Some persistedMessage \<Rightarrow>
                  clearTimers phone
                    (s\<lparr>closures := (closures s)[n := c\<lparr>messageFound := True\<rparr>],
                       messages := (messages s)
                         (phone \<mapsto> replaceInPlace corrId persistedMessage
                                      (messagesOf (messages s) phone))\<rparr>)
              | None \<Rightarrow>
                  (if attempt < length pollDelays - 1 \<and> \<not> messageFound c then
                     schedulePoll n (attempt + 1) phone s
                   else if \<not> messageFound c then s\<lparr>reloads := reloads s @ [n]\<rparr>
                   else s))
         | Inl e \<Rightarrow>
             (if attempt < length pollDelays - 1 \<and> \<not> messageFound c then
                schedulePoll n (attempt + 1) phone s
              else s))"

text \<open>
  What can happen next: a send's request resolves, the browser fires a pending timeout,
  a poll's fetch returns, or something else sets the state \<open>messages\<close> (\<open>loadMessages\<close>,
  the status callback, a new conversation).
\<close>

datatype event =
    SendResolved string string SendSmsResponse int
  | TimerFires nat
  | FetchReturns nat nat "string + message list"
  | MessagesSet messages_state

fun step :: "event \<Rightarrow> ui_state \<Rightarrow> ui_state" where
  "step (SendResolved phone messageText response now) s =
     handleSendResolved phone messageText response now s"
| "step (TimerFires tid) s =
     (case find (\<lambda>t. timer_id t = tid) (pendingTimers s) of
        None \<Rightarrow> s
      | Some t \<Rightarrow>
          pollForMessage_start (timer_send t) (timer_attempt t)
            (s\<lparr>pendingTimers := filter (\<lambda>u. timer_id u \<noteq> tid) (pendingTimers s)\<rparr>))"
| "step (FetchReturns n attempt fetched) s =
     (if (n, attempt) \<in> set (awaiting s) then
        pollForMessage_resume n attempt fetched
          (s\<lparr>awaiting := remove1 (n, attempt) (awaiting s)\<rparr>)
      else s)"
| "step (MessagesSet m) s = s\<lparr>messages := m\<rparr>"

definition run :: "event list \<Rightarrow> ui_state \<Rightarrow> ui_state" where
  "run evs s = foldl (\<lambda>st e. step e st) s evs"

inductive reachable :: "ui_state \<Rightarrow> bool" where
  reachable_init: "reachable initialState"
| reachable_step: "reachable s \<Longrightarrow> reachable (step e s)"

text \<open>
  The views of one send: its pending timeouts, its suspended polls, the attempts it has
  fetched for, the reloads it has made; and the phone number that a timeout's send polls.
\<close>

definition timersOf :: "nat \<Rightarrow> ui_state \<Rightarrow> timer list" where
  "timersOf n s = filter (\<lambda>t. timer_send t = n) (pendingTimers s)"

definition awaitingOf :: "nat \<Rightarrow> ui_state \<Rightarrow> nat list" where
  "awaitingOf n s = map snd (filter (\<lambda>p. fst p = n) (awaiting s))"

definition attemptsOf :: "nat \<Rightarrow> ui_state \<Rightarrow> nat list" where
  "attemptsOf n s = map snd (filter (\<lambda>p. fst p = n) (fetches s))"

definition reloadsOf :: "nat \<Rightarrow> ui_state \<Rightarrow> nat" where
  "reloadsOf n s = length (filter (\<lambda>m. m = n) (reloads s))"

definition timerPhone :: "ui_state \<Rightarrow> timer \<Rightarrow> string" where
  "timerPhone s t = selectedPhoneNumber (closures s ! timer_send t)"

text \<open>The sends that have a pending timeout for a phone number.\<close>

definition pollingSends :: "string \<Rightarrow> ui_state \<Rightarrow> nat list" where
  "pollingSends phone s =
     remdups (map timer_send (filter (\<lambda>t. timerPhone s t = phone) (pendingTimers s)))"

section \<open>The end-to-end scenario of the specification\<close>

text \<open>
  A send to \<open>+15551234567\<close> with text \<open>hi\<close>, answered with request id \<open>r1\<close>; the
  optimistic entry that \<open>handleSend\<close> makes of it at instant 1000, and the persisted
  entry that the store later returns for it.
\<close>

definition scenarioResponse :: SendSmsResponse where
  "scenarioResponse = \<lparr>resp_requestId = ''r1'', resp_status = ''PENDING'', timestamp = 1000\<rparr>"

definition scenarioOptimistic :: message where
  "scenarioOptimistic = optimisticMessage ''+15551234567'' ''hi'' scenarioResponse 1000"

definition scenarioPersisted :: message where
  "scenarioPersisted =
     \<lparr>msg_id = ''m1'', correlationId = Some ''r1'', phoneNumber = ''+15551234567'',
      msg_text = ''hi'', status = ''SUCCESS'', createdAt = 2000\<rparr>"

definition scenarioStored :: Message where
  "scenarioStored =
     \<lparr>ID = ''m1'', UserID = ''u1'', PhoneNumber = ''+15551234567'', Text = ''hi'',
      Status = ''SUCCESS'', CreatedAt = 2000\<rparr>"

text \<open>
  States of the scenario: the first poll of the send is waiting for its fetch; the fourth
  poll of the send is waiting for its fetch, the first three having found nothing.
\<close>

definition scenarioPolling :: ui_state where
  "scenarioPolling =
     run [SendResolved ''+15551234567'' ''hi'' scenarioResponse 1000, TimerFires 0] initialState"

definition scenarioLastAttempt :: ui_state where
  "scenarioLastAttempt =
     run [FetchReturns 0 0 (Inr []), TimerFires 1, FetchReturns 0 1 (Inr []), TimerFires 2,
          FetchReturns 0 2 (Inr []), TimerFires 3] scenarioPolling"

text \<open>The scenario right after the send: the timeout of the first poll is pending.\<close>

definition scenarioSent :: ui_state where
  "scenarioSent =
     run [SendResolved ''+15551234567'' ''hi'' scenarioResponse 1000] initialState"

text \<open>A second send to the same number, answered with request id \<open>r2\<close>.\<close>

definition scenarioSecondResponse :: SendSmsResponse where
  "scenarioSecondResponse =
     \<lparr>resp_requestId = ''r2'', resp_status = ''PENDING'', timestamp = 1400\<rparr>"

section \<open>Auxiliary notions for the proofs\<close>

text \<open>Every entry of the merge map is stored under the correlation key of its value.\<close>

definition keyed :: "(string \<times> message) list \<Rightarrow> bool" where
  "keyed m = (\<forall>(k, v) \<in> set m. k = corrKey v)"

text \<open>
  Invariants of the polling state. Every index of a send that occurs in the state is the
  index of a closure.
\<close>

definition indexed :: "ui_state \<Rightarrow> bool" where
  "indexed s =
     ((\<forall>t \<in> set (pendingTimers s). timer_send t < length (closures s)) \<and>
      (\<forall>p \<in> set (awaiting s). fst p < length (closures s)) \<and>
      (\<forall>p \<in> set (fetches s). fst p < length (closures s)) \<and>
      (\<forall>m \<in> set (reloads s). m < length (closures s)))"

text \<open>Every pending timeout is for an attempt of the schedule, with that attempt's delay.\<close>

definition scheduled :: "ui_state \<Rightarrow> bool" where
  "scheduled s =
     (\<forall>t \<in> set (pendingTimers s).
        timer_attempt t < length pollDelays \<and> timer_delay t = pollDelays ! timer_attempt t)"

text \<open>
  Every pending timeout has its handle in \<open>retryTimersRef.current\<close>, under the phone
  number of its send.
\<close>

definition registered :: "ui_state \<Rightarrow> bool" where
  "registered s =
     (\<forall>t \<in> set (pendingTimers s).
        \<exists>ids. retryTimers s (timerPhone s t) = Some ids \<and> timer_id t \<in> set ids)"

text \<open>A send with no pending timeout and no suspended poll.\<close>

definition idle :: "nat \<Rightarrow> ui_state \<Rightarrow> bool" where
  "idle n s = (timersOf n s = [] \<and> awaitingOf n s = [])"

text \<open>
  The poll sequence of one send is a chain: its attempts so far are \<open>0, 1, ...\<close> in
  order, at most four; it is idle, or has one pending timeout for the next attempt, or one
  suspended poll for the last attempt made; it has reloaded at most once, and not at all
  before it is idle; and once its message is found it is idle.
\<close>

definition chain :: "nat \<Rightarrow> ui_state \<Rightarrow> bool" where
  "chain n s =
     (attemptsOf n s = [0..<length (attemptsOf n s)] \<and>
      length (attemptsOf n s) \<le> 4 \<and>
      reloadsOf n s \<le> 1 \<and>
      (idle n s \<or>
       (\<exists>t. timersOf n s = [t] \<and> awaitingOf n s = [] \<and>
            timer_attempt t = length (attemptsOf n s) \<and> timer_attempt t < 4 \<and>
            reloadsOf n s = 0 \<and> \<not> messageFound (closures s ! n)) \<or>
       (\<exists>a. timersOf n s = [] \<and> awaitingOf n s = [a] \<and>
            Suc a = length (attemptsOf n s) \<and>
            reloadsOf n s = 0 \<and> \<not> messageFound (closures s ! n))))"

section \<open>Properties of the reconciliation merge\<close>

text \<open>The list that \<open>loadMessages\<close> stores for the phone number is the merged list.\<close>

lemma loadMessages_stores_merge:
  "messagesOf (loadMessages now phone preserveOptimistic (Inr data) prev) phone =
     mergeMessages now preserveOptimistic data (messagesOf prev phone)"
  by (simp add: loadMessages_def messagesOf_def)

lemma map_of_keyed_filter:
  "map_of (map (\<lambda>m. (corrKey m, m)) xs) k =
     (case filter (\<lambda>m. corrKey m = k) xs of [] \<Rightarrow> None | x # _ \<Rightarrow> Some x)"
  by (induction xs) auto

lemma map_of_addPersisted:
  "map_of (addPersisted m x) = (map_of m)(corrKey x \<mapsto> x)"
  by (simp add: addPersisted_def Map_set_def update_conv')

lemma map_of_addOptimistic:
  "map_of (addOptimistic m x) = [corrKey x \<mapsto> x] ++ map_of m"
  by (auto simp add: addOptimistic_def Map_set_def Map_has_def update_conv' map_add_def
        fun_eq_iff split: option.splits)

lemma map_of_foldl_addPersisted:
  "map_of (foldl addPersisted m data) =
     map_of m ++ map_of (rev (map (\<lambda>m. (corrKey m, m)) data))"
proof (induction data arbitrary: m)
  case Nil
  then show ?case by simp
next
  case (Cons x xs)
  show ?case
    by (auto simp add: Cons.IH map_of_addPersisted map_add_def fun_eq_iff split: option.splits)
qed

lemma map_of_foldl_addOptimistic:
  "map_of (foldl addOptimistic m opt) = map_of (map (\<lambda>m. (corrKey m, m)) opt) ++ map_of m"
proof (induction opt arbitrary: m)
  case Nil
  then show ?case by simp
next
  case (Cons x xs)
  show ?case
    by (auto simp add: Cons.IH map_of_addOptimistic map_add_def fun_eq_iff split: option.splits)
qed

lemma set_update_subset: "set (AList.update k v m) \<subseteq> insert (k, v) (set m)"
  by (induction m) auto

lemma keyed_addPersisted: "keyed m \<Longrightarrow> keyed (addPersisted m x)"
  using set_update_subset[of "corrKey x" x m]
  by (auto simp: keyed_def addPersisted_def Map_set_def)

lemma keyed_addOptimistic: "keyed m \<Longrightarrow> keyed (addOptimistic m x)"
  using set_update_subset[of "corrKey x" x m]
  by (auto simp: keyed_def addOptimistic_def Map_set_def)

lemma distinct_addPersisted: "distinct (map fst m) \<Longrightarrow> distinct (map fst (addPersisted m x))"
  by (simp add: addPersisted_def Map_set_def distinct_update)

lemma distinct_addOptimistic: "distinct (map fst m) \<Longrightarrow> distinct (map fst (addOptimistic m x))"
  by (simp add: addOptimistic_def Map_set_def distinct_update)

lemma foldl_addPersisted_inv:
  "keyed m \<Longrightarrow> distinct (map fst m) \<Longrightarrow>
   keyed (foldl addPersisted m xs) \<and> distinct (map fst (foldl addPersisted m xs))"
  by (induction xs arbitrary: m) (simp_all add: keyed_addPersisted distinct_addPersisted)

lemma foldl_addOptimistic_inv:
  "keyed m \<Longrightarrow> distinct (map fst m) \<Longrightarrow>
   keyed (foldl addOptimistic m xs) \<and> distinct (map fst (foldl addOptimistic m xs))"
  by (induction xs arbitrary: m) (simp_all add: keyed_addOptimistic distinct_addOptimistic)

lemma keyed_values: "keyed m \<Longrightarrow> map corrKey (Map_values m) = map fst m"
  by (induction m) (auto simp: keyed_def Map_values_def)

lemma filter_key_single:
  "distinct (map f xs) \<Longrightarrow> x \<in> set xs \<Longrightarrow> filter (\<lambda>e. f e = f x) xs = [x]"
proof (induction xs)
  case Nil
  then show ?case by simp
next
  case (Cons a xs)
  show ?case
  proof (cases "a = x")
    case True
    have "filter (\<lambda>e. f e = f x) xs = []"
      using Cons.prems True by (force simp: filter_empty_conv image_iff)
    then show ?thesis using True by simp
  next
    case False
    then have "x \<in> set xs" using Cons.prems by simp
    moreover have "f a \<noteq> f x" using Cons.prems \<open>x \<in> set xs\<close> by (force simp: image_iff)
    ultimately show ?thesis using Cons by simp
  qed
qed

lemma filter_key_none: "k \<notin> f ` set xs \<Longrightarrow> filter (\<lambda>e. f e = k) xs = []"
  by (auto simp: filter_empty_conv)

lemma distinct_map_sort_key:
  "distinct (map f xs) \<Longrightarrow> distinct (map f (sort_key g xs))"
  by (simp add: distinct_map)

lemma filter_key_Map_values:
  assumes "keyed m" and "distinct (map fst m)"
  shows "filter (\<lambda>e. corrKey e = k) (sortByCreatedAt (Map_values m)) =
           (case map_of m k of None \<Rightarrow> [] | Some v \<Rightarrow> [v])"
proof -
  let ?out = "sortByCreatedAt (Map_values m)"
  have keys: "map corrKey (Map_values m) = map fst m"
    using assms(1) by (rule keyed_values)
  have "distinct (map corrKey (Map_values m))"
    using assms(2) keys by simp
  then have dist: "distinct (map corrKey ?out)"
    unfolding sortByCreatedAt_def by (rule distinct_map_sort_key)
  have setout: "set ?out = snd ` set m"
    by (simp add: sortByCreatedAt_def Map_values_def)
  show ?thesis
  proof (cases "map_of m k")
    case None
    then have "k \<notin> fst ` set m" by (simp add: map_of_eq_None_iff)
    then have "k \<notin> corrKey ` set ?out"
      using keys setout by (metis list.set_map set_sort sortByCreatedAt_def)
    then show ?thesis using None by (simp add: filter_key_none)
  next
    case (Some v)
    then have mem: "(k, v) \<in> set m" by (rule map_of_SomeD)
    then have "k = corrKey v" using assms(1) by (auto simp: keyed_def)
    moreover have "v \<in> set ?out" using mem setout by force
    ultimately show ?thesis using Some dist by (simp add: filter_key_single)
  qed
qed

text \<open>
  The merged list, key by key: the last persisted entry with the key; failing that, the
  first surviving local entry with the key; failing that, nothing.
\<close>

lemma mergeMessages_by_key:
  assumes "currentMessages \<noteq> []"
  shows "filter (\<lambda>e. corrKey e = k) (mergeMessages now True data currentMessages) =
           (if k \<in> corrKey ` set data then [last (filter (\<lambda>m. corrKey m = k) data)]
            else if k \<in> corrKey ` set (filter (keepOptimistic now data) currentMessages)
            then [hd (filter (\<lambda>m. corrKey m = k)
                       (filter (keepOptimistic now data) currentMessages))]
            else [])"
proof -
  let ?opt = "filter (keepOptimistic now data) currentMessages"
  let ?pm = "foldl addPersisted [] data"
  let ?m = "foldl addOptimistic ?pm ?opt"
  have k0: "keyed ([] :: (string \<times> message) list)" by (simp add: keyed_def)
  have inv0: "keyed ?pm \<and> distinct (map fst ?pm)"
    using foldl_addPersisted_inv[OF k0, of data] by simp
  have inv: "keyed ?m \<and> distinct (map fst ?m)"
    by (rule foldl_addOptimistic_inv) (simp_all add: inv0)
  have out: "mergeMessages now True data currentMessages = sortByCreatedAt (Map_values ?m)"
    using assms by (simp add: mergeMessages_def)
  have look: "map_of ?m k =
      (case filter (\<lambda>m. corrKey m = k) (rev data) of
         x # _ \<Rightarrow> Some x
       | [] \<Rightarrow> (case filter (\<lambda>m. corrKey m = k) ?opt of [] \<Rightarrow> None | x # _ \<Rightarrow> Some x))"
  proof -
    have "map_of (rev (map (\<lambda>m. (corrKey m, m)) data)) k =
            map_of (map (\<lambda>m. (corrKey m, m)) (rev data)) k"
      by (simp add: rev_map)
    then have "map_of ?m k =
        (case map_of (map (\<lambda>m. (corrKey m, m)) (rev data)) k of
           Some x \<Rightarrow> Some x
         | None \<Rightarrow> map_of (map (\<lambda>m. (corrKey m, m)) ?opt) k)"
      by (simp add: map_of_foldl_addOptimistic map_of_foldl_addPersisted map_add_def
            split: option.splits)
    then show ?thesis
      unfolding map_of_keyed_filter by (simp split: list.splits)
  qed
  have lastp: "k \<in> corrKey ` set data \<Longrightarrow>
      filter (\<lambda>m. corrKey m = k) (rev data) =
        last (filter (\<lambda>m. corrKey m = k) data) # tl (rev (filter (\<lambda>m. corrKey m = k) data))"
  proof -
    assume "k \<in> corrKey ` set data"
    then have ne: "filter (\<lambda>m. corrKey m = k) data \<noteq> []"
      by (auto simp: filter_empty_conv)
    then show ?thesis
      by (metis hd_rev list.collapse rev_filter rev_is_Nil_conv)
  qed
  have nonep: "k \<notin> corrKey ` set data \<Longrightarrow> filter (\<lambda>m. corrKey m = k) (rev data) = []"
    by (auto simp: filter_empty_conv)
  have firsto: "k \<in> corrKey ` set ?opt \<Longrightarrow>
      filter (\<lambda>m. corrKey m = k) ?opt =
        hd (filter (\<lambda>m. corrKey m = k) ?opt) # tl (filter (\<lambda>m. corrKey m = k) ?opt)"
  proof -
    assume "k \<in> corrKey ` set ?opt"
    then have "filter (\<lambda>m. corrKey m = k) ?opt \<noteq> []"
      by (simp only: filter_empty_conv) blast
    then show ?thesis by simp
  qed
  have noneo: "k \<notin> corrKey ` set ?opt \<Longrightarrow> filter (\<lambda>m. corrKey m = k) ?opt = []"
    by (simp only: filter_empty_conv) blast
  show ?thesis
  proof (cases "k \<in> corrKey ` set data")
    case True
    have "map_of ?m k = Some (last (filter (\<lambda>m. corrKey m = k) data))"
      using look lastp[OF True] by simp
    then show ?thesis
      using True out filter_key_Map_values[of ?m k] inv by simp
  next
    case False
    note np = nonep[OF False]
    show ?thesis
    proof (cases "k \<in> corrKey ` set ?opt")
      case True
      have "map_of ?m k = Some (hd (filter (\<lambda>m. corrKey m = k) ?opt))"
        using look np firsto[OF True] by (metis (no_types, lifting) list.simps(4,5))
      then show ?thesis
        using True False out filter_key_Map_values[of ?m k] inv by simp
    next
      case no: False
      have "map_of ?m k = None"
        using look np noneo[OF no] by simp
      then show ?thesis
        using no False out filter_key_Map_values[of ?m k] inv by simp
    qed
  qed
qed

lemma mergeMessages_distinct_keys:
  assumes "currentMessages \<noteq> []"
  shows "distinct (map corrKey (mergeMessages now True data currentMessages))"
proof -
  let ?opt = "filter (keepOptimistic now data) currentMessages"
  let ?pm = "foldl addPersisted [] data"
  let ?m = "foldl addOptimistic ?pm ?opt"
  have k0: "keyed ([] :: (string \<times> message) list)" by (simp add: keyed_def)
  have inv0: "keyed ?pm \<and> distinct (map fst ?pm)"
    using foldl_addPersisted_inv[OF k0, of data] by simp
  have inv: "keyed ?m \<and> distinct (map fst ?m)"
    by (rule foldl_addOptimistic_inv) (simp_all add: inv0)
  have out: "mergeMessages now True data currentMessages = sortByCreatedAt (Map_values ?m)"
    using assms by (simp add: mergeMessages_def)
  have "distinct (map corrKey (Map_values ?m))"
    using inv keyed_values[of ?m] by simp
  then show ?thesis
    unfolding out sortByCreatedAt_def by (rule distinct_map_sort_key)
qed

lemma keepOptimistic_iff:
  "keepOptimistic now data m \<longleftrightarrow>
     \<not> (corrKey m \<noteq> [] \<and> corrKey m \<in> corrKey ` set data) \<and>
     msg_id m \<notin> msg_id ` set data \<and> now - createdAt m \<le> 2500"
  by (auto simp: keepOptimistic_def persistedCorrelationIds_def persistedIds_def)

lemma hd_filter_in_set: "filter P xs \<noteq> [] \<Longrightarrow> hd (filter P xs) \<in> set xs \<and> P (hd (filter P xs))"
  using hd_in_set[of "filter P xs"] by auto

lemma last_filter_in_set:
  "filter P xs \<noteq> [] \<Longrightarrow> last (filter P xs) \<in> set xs \<and> P (last (filter P xs))"
  using last_in_set[of "filter P xs"] by auto

lemmas scenario_defs =
  scenarioResponse_def scenarioOptimistic_def scenarioPersisted_def optimisticMessage_def

lemmas merge_defs =
  mergeMessages_def keepOptimistic_def persistedCorrelationIds_def persistedIds_def
  addPersisted_def addOptimistic_def Map_set_def Map_has_def Map_values_def
  sortByCreatedAt_def corrKey_def

text \<open>
  C1 (amended). For every persisted list and every non-empty local list, the merge of
  \<open>loadMessages(phone, true)\<close> yields a list with at most one entry per correlation key;
  its keys are exactly the keys of the persisted list together with the keys of the local
  entries that survive the filter (not matched by key or id, not older than 2500 ms);
  and the entry shown for a key of the persisted list is a persisted entry, the last one
  with that key.
\<close>

theorem mergeMessages_one_entry_per_key:
  assumes "currentMessages \<noteq> []"
  shows "distinct (map corrKey (mergeMessages now True data currentMessages)) \<and>
         corrKey ` set (mergeMessages now True data currentMessages) =
           corrKey ` set data \<union>
           corrKey ` set (filter (keepOptimistic now data) currentMessages) \<and>
         (\<forall>e \<in> set (mergeMessages now True data currentMessages).
            corrKey e \<in> corrKey ` set data \<longrightarrow>
            e \<in> set data \<and> e = last (filter (\<lambda>m. corrKey m = corrKey e) data))"
proof -
  let ?out = "mergeMessages now True data currentMessages"
  let ?opt = "filter (keepOptimistic now data) currentMessages"
  note by_key = mergeMessages_by_key[OF assms, of _ now data]
  have keys: "corrKey ` set ?out = corrKey ` set data \<union> corrKey ` set ?opt"
  proof (rule set_eqI)
    fix k
    have "k \<in> corrKey ` set ?out \<longleftrightarrow> filter (\<lambda>e. corrKey e = k) ?out \<noteq> []"
      by (auto simp: filter_empty_conv)
    also have "\<dots> \<longleftrightarrow> k \<in> corrKey ` set data \<union> corrKey ` set ?opt"
      unfolding by_key[of k] by simp
    finally show "k \<in> corrKey ` set ?out \<longleftrightarrow> k \<in> corrKey ` set data \<union> corrKey ` set ?opt" .
  qed
  have wins: "e \<in> set data \<and> e = last (filter (\<lambda>m. corrKey m = corrKey e) data)"
    if e: "e \<in> set ?out" and k: "corrKey e \<in> corrKey ` set data" for e
  proof -
    have "e \<in> set (filter (\<lambda>x. corrKey x = corrKey e) ?out)" using e by simp
    then have eq: "e = last (filter (\<lambda>m. corrKey m = corrKey e) data)"
      unfolding by_key[of "corrKey e"] using k by simp
    have "filter (\<lambda>m. corrKey m = corrKey e) data \<noteq> []"
      using k by (simp only: filter_empty_conv) force
    then have "last (filter (\<lambda>m. corrKey m = corrKey e) data) \<in> set data"
      using last_filter_in_set by blast
    then show ?thesis using eq by simp
  qed
  show ?thesis
    using mergeMessages_distinct_keys[OF assms, of now data] keys wins by blast
qed

theorem mergeMessages_one_entry_per_key_witness:
  "[scenarioOptimistic] \<noteq> [] \<and>
   distinct (map corrKey (mergeMessages 1500 True [scenarioPersisted] [scenarioOptimistic])) \<and>
   corrKey ` set (mergeMessages 1500 True [scenarioPersisted] [scenarioOptimistic]) = {''r1''} \<and>
   mergeMessages 1500 True [scenarioPersisted] [scenarioOptimistic] = [scenarioPersisted]"
proof -
  have h: "[scenarioOptimistic] \<noteq> []" by simp
  note t = mergeMessages_one_entry_per_key[OF h, of 1500 "[scenarioPersisted]"]
  have keys: "corrKey ` set (mergeMessages 1500 True [scenarioPersisted] [scenarioOptimistic]) =
               {''r1''}"
    using conjunct1[OF conjunct2[OF t]]
    by (simp add: scenario_defs keepOptimistic_def persistedCorrelationIds_def corrKey_def)
  have val: "mergeMessages 1500 True [scenarioPersisted] [scenarioOptimistic] =
               [scenarioPersisted]"
    by (simp add: scenario_defs merge_defs)
  show ?thesis
    using h conjunct1[OF t] keys val by (intro conjI)
qed

text \<open>
  C1 as stated fails. A local entry older than 2500 ms that the persisted list does not
  have is dropped, so its key is in an input and not in the output; and with an empty
  local list the persisted list is shown as fetched, two entries with one key included.
\<close>

theorem mergeMessages_one_entry_per_key_counterexample:
  "corrKey scenarioOptimistic = ''r1'' \<and>
   mergeMessages 5000 True [] [scenarioOptimistic] = [] \<and>
   map corrKey (mergeMessages 5000 True
      [scenarioPersisted, scenarioPersisted\<lparr>status := ''FAILED''\<rparr>] []) = [''r1'', ''r1'']"
  by (simp add: scenario_defs merge_defs)

text \<open>
  C5. In the merge of \<open>loadMessages(phone, true)\<close>, a local entry that no persisted entry
  matches by correlation key and that is older than 2500 ms is not in the merged list.
  A local entry that no persisted entry matches (by correlation key, or by id, the
  fallback of the filter) and that is at most 2500 ms old stays: the merged list has a
  local entry of that age bound with its key, and it is the entry itself when no other
  local entry has its key.
\<close>

theorem stale_optimistic_eviction:
  assumes "opt \<in> set currentMessages"
      and "corrKey opt \<notin> corrKey ` set data"
  shows "(now - createdAt opt > 2500 \<longrightarrow>
            opt \<notin> set (mergeMessages now True data currentMessages)) \<and>
         (now - createdAt opt \<le> 2500 \<and> msg_id opt \<notin> msg_id ` set data \<longrightarrow>
            (\<exists>e \<in> set (mergeMessages now True data currentMessages).
               corrKey e = corrKey opt \<and> e \<in> set currentMessages \<and>
               now - createdAt e \<le> 2500) \<and>
            ((\<forall>m \<in> set currentMessages. corrKey m = corrKey opt \<longrightarrow> m = opt) \<longrightarrow>
               opt \<in> set (mergeMessages now True data currentMessages)))"
proof -
  let ?out = "mergeMessages now True data currentMessages"
  let ?opts = "filter (keepOptimistic now data) currentMessages"
  let ?k = "corrKey opt"
  have ne: "currentMessages \<noteq> []" using assms(1) by auto
  note by_key = mergeMessages_by_key[OF ne, of ?k now data]
  have stale: "opt \<notin> set ?out" if old: "now - createdAt opt > 2500"
  proof
    assume "opt \<in> set ?out"
    then have mem: "opt \<in> set (filter (\<lambda>e. corrKey e = ?k) ?out)" by simp
    then have ink: "?k \<in> corrKey ` set ?opts"
      unfolding by_key using assms(2) by (auto split: if_splits)
    then have "filter (\<lambda>m. corrKey m = ?k) ?opts \<noteq> []"
      by (simp only: filter_empty_conv) force
    then have "hd (filter (\<lambda>m. corrKey m = ?k) ?opts) \<in> set ?opts"
      using hd_filter_in_set by blast
    moreover have "opt = hd (filter (\<lambda>m. corrKey m = ?k) ?opts)"
      using mem ink unfolding by_key using assms(2) by simp
    ultimately have "keepOptimistic now data opt" by simp
    then show False using old by (simp add: keepOptimistic_iff)
  qed
  have young: "(\<exists>e \<in> set ?out. corrKey e = ?k \<and> e \<in> set currentMessages \<and>
                   now - createdAt e \<le> 2500) \<and>
               ((\<forall>m \<in> set currentMessages. corrKey m = ?k \<longrightarrow> m = opt) \<longrightarrow> opt \<in> set ?out)"
    if fresh: "now - createdAt opt \<le> 2500" and noid: "msg_id opt \<notin> msg_id ` set data"
  proof -
    let ?h = "hd (filter (\<lambda>m. corrKey m = ?k) ?opts)"
    have keep: "keepOptimistic now data opt"
      using fresh noid assms(2) by (simp add: keepOptimistic_iff)
    then have "opt \<in> set ?opts" using assms(1) by simp
    then have ink: "?k \<in> corrKey ` set ?opts" by (rule imageI)
    then have "filter (\<lambda>m. corrKey m = ?k) ?opts \<noteq> []"
      by (simp only: filter_empty_conv) force
    then have h: "?h \<in> set ?opts \<and> corrKey ?h = ?k"
      using hd_filter_in_set[of "\<lambda>m. corrKey m = ?k" ?opts] by blast
    have "filter (\<lambda>e. corrKey e = ?k) ?out = [?h]"
      unfolding by_key using assms(2) ink by simp
    then have "?h \<in> set (filter (\<lambda>e. corrKey e = ?k) ?out)" by simp
    then have hout: "?h \<in> set ?out" by simp
    have hprops: "?h \<in> set currentMessages \<and> now - createdAt ?h \<le> 2500"
      using h by (simp add: keepOptimistic_iff)
    show ?thesis using hout h hprops by metis
  qed
  show ?thesis using stale young by blast
qed

theorem stale_optimistic_eviction_witness:
  "scenarioOptimistic \<in> set [scenarioOptimistic] \<and>
   corrKey scenarioOptimistic \<notin> corrKey ` set [] \<and>
   5000 - createdAt scenarioOptimistic > 2500 \<and>
   scenarioOptimistic \<notin> set (mergeMessages 5000 True [] [scenarioOptimistic]) \<and>
   1500 - createdAt scenarioOptimistic \<le> 2500 \<and>
   msg_id scenarioOptimistic \<notin> msg_id ` set [] \<and>
   scenarioOptimistic \<in> set (mergeMessages 1500 True [] [scenarioOptimistic])"
proof -
  have h1: "scenarioOptimistic \<in> set [scenarioOptimistic]" by simp
  have h2: "corrKey scenarioOptimistic \<notin> corrKey ` set []" by simp
  have old: "5000 - createdAt scenarioOptimistic > 2500" by (simp add: scenario_defs)
  have young: "1500 - createdAt scenarioOptimistic \<le> 2500" by (simp add: scenario_defs)
  have h3: "msg_id scenarioOptimistic \<notin> msg_id ` set []" by simp
  have only: "\<forall>m \<in> set [scenarioOptimistic]. corrKey m = corrKey scenarioOptimistic \<longrightarrow>
      m = scenarioOptimistic" by simp
  have dropped: "scenarioOptimistic \<notin> set (mergeMessages 5000 True [] [scenarioOptimistic])"
    by (rule mp[OF conjunct1[OF stale_optimistic_eviction[OF h1 h2, of 5000]] old])
  have kept: "scenarioOptimistic \<in> set (mergeMessages 1500 True [] [scenarioOptimistic])"
    by (rule mp[OF conjunct2[OF mp[OF conjunct2[OF stale_optimistic_eviction[OF h1 h2, of 1500]]
                                     conjI[OF young h3]]] only])
  show ?thesis
    using h1 h2 old young h3 dropped kept by (intro conjI)
qed

section \<open>Properties of the push-channel callback\<close>

text \<open>
  C2 (amended). A push-channel status event sets the status of every local message whose
  correlation key or id equals the event's request id to the event's status, whatever
  status the message had, terminal or not; every other message is unchanged. No
  monotonic-status rule is applied.
\<close>

theorem onStatusEvent_overwrites_status:
  "length (fst (onStatusEvent ev ms)) = length ms \<and>
   (\<forall>i < length ms.
      fst (onStatusEvent ev ms) ! i =
        (if eventMatches ev (ms ! i) then (ms ! i)\<lparr>status := ev_status ev\<rparr> else ms ! i))"
  by (simp add: onStatusEvent_def Let_def)

theorem onStatusEvent_overwrites_status_witness:
  "0 < length [scenarioPersisted] \<and>
   length (fst (onStatusEvent \<lparr>requestId = ''r1'', ev_status = ''FAILED''\<rparr> [scenarioPersisted])) =
     length [scenarioPersisted] \<and>
   fst (onStatusEvent \<lparr>requestId = ''r1'', ev_status = ''FAILED''\<rparr> [scenarioPersisted]) ! 0 =
     scenarioPersisted\<lparr>status := ''FAILED''\<rparr>"
proof -
  note t = onStatusEvent_overwrites_status
             [of "\<lparr>requestId = ''r1'', ev_status = ''FAILED''\<rparr>" "[scenarioPersisted]"]
  have h: "0 < length [scenarioPersisted]" by simp
  have "fst (onStatusEvent \<lparr>requestId = ''r1'', ev_status = ''FAILED''\<rparr> [scenarioPersisted]) ! 0 =
     scenarioPersisted\<lparr>status := ''FAILED''\<rparr>"
    using mp[OF spec[OF conjunct2[OF t]] h]
    by (simp add: eventMatches_def corrKey_def scenarioPersisted_def)
  then show ?thesis
    using h conjunct1[OF t] by (intro conjI)
qed

text \<open>
  C2 as stated fails: the local message has the terminal status \<open>SUCCESS\<close>, the event
  has its request id and the status \<open>PENDING\<close>, and the message becomes \<open>PENDING\<close>.
\<close>

theorem terminal_status_sticky_counterexample:
  "status scenarioPersisted = ''SUCCESS'' \<and>
   eventMatches \<lparr>requestId = ''r1'', ev_status = ''PENDING''\<rparr> scenarioPersisted \<and>
   map status (fst (onStatusEvent \<lparr>requestId = ''r1'', ev_status = ''PENDING''\<rparr>
                      [scenarioPersisted])) = [''PENDING'']"
  by (simp add: onStatusEvent_def eventMatches_def corrKey_def scenarioPersisted_def)

section \<open>Properties of event application and of the in-memory store\<close>

lemma SaveTimes_replicate: "SaveTimes n msg s = s @ replicate n msg"
proof (induction n arbitrary: s)
  case 0
  then show ?case by simp
next
  case (Suc n)
  then show ?case by (simp add: Save_def replicate_app_Cons_same)
qed

lemma applyEvent_twice: "applyEvent ev (applyEvent ev store) = applyEvent ev store"
proof (cases "store (ev_correlationId ev)")
  case None
  then show ?thesis by (simp add: applyEvent_def)
next
  case (Some existing)
  let ?k = "ev_correlationId ev"
  let ?applied = "existing\<lparr>rec_status := ev_newStatus ev, rec_lastApplied := eventTime ev\<rparr>"
  have "applyEvent ev store = store \<or> applyEvent ev store = store(?k \<mapsto> ?applied)"
    unfolding applyEvent_def Some option.case
    by (cases "terminal (rec_status existing) \<and> ev_newStatus ev \<noteq> rec_status existing";
        cases "eventTime ev < rec_lastApplied existing \<and>
               \<not> (terminal (ev_newStatus ev) \<and> \<not> terminal (rec_status existing))")
       (simp_all only: if_True if_False simp_thms)
  then consider (discarded) "applyEvent ev store = store"
    | (applied) "applyEvent ev store = store(?k \<mapsto> ?applied)"
    by (rule disjE)
  then show ?thesis
  proof cases
    case discarded
    then show ?thesis by simp
  next
    case applied
    have look: "(store(?k \<mapsto> ?applied)) ?k = Some ?applied"
      by simp
    have "applyEvent ev (store(?k \<mapsto> ?applied)) = store(?k \<mapsto> ?applied)"
      unfolding applyEvent_def look by simp
    then show ?thesis
      using applied by simp
  qed
qed

lemma applyTimes_Suc: "applyTimes (Suc n) ev store = applyEvent ev store"
proof (induction n arbitrary: store)
  case 0
  then show ?case by simp
next
  case (Suc n)
  have "applyTimes (Suc (Suc n)) ev store = applyTimes (Suc n) ev (applyEvent ev store)"
    by simp
  also have "\<dots> = applyEvent ev (applyEvent ev store)"
    by (rule Suc.IH)
  also have "\<dots> = applyEvent ev store"
    by (rule applyEvent_twice)
  finally show ?case .
qed

text \<open>
  C3. Under the merge policy of the specification (4.2), the store after the same status
  event is applied \<open>n\<close> times, for \<open>n\<close> of at least one, is the store after it is
  applied once: the same record under the event's correlation id, and every other record
  untouched. The in-memory store of \<open>models/profile.go\<close>, which takes whole messages and
  not events, appends on \<open>Save\<close>: the last record after \<open>n\<close> saves of one message is the
  last record after one save.
\<close>

theorem event_application_idempotent:
  "0 < n \<Longrightarrow>
     applyTimes n ev store = applyTimes 1 ev store \<and>
     applyTimes 1 ev store = applyEvent ev store \<and>
     applyTimes n ev store (ev_correlationId ev) = applyEvent ev store (ev_correlationId ev) \<and>
     last (SaveTimes n msg s) = last (SaveTimes 1 msg s)"
proof -
  assume "0 < n"
  then obtain k where n: "n = Suc k"
    by (cases n) simp_all
  have one: "applyTimes 1 ev store = applyEvent ev store"
    by simp
  have many: "applyTimes n ev store = applyEvent ev store"
    unfolding n by (rule applyTimes_Suc)
  have saved: "last (SaveTimes n msg s) = last (SaveTimes 1 msg s)"
    unfolding n SaveTimes_replicate by simp
  show ?thesis
    using one many saved by simp
qed

theorem event_application_idempotent_witness:
  "(0::nat) < 3 \<and>
   applyTimes 3 \<lparr>ev_correlationId = ''r1'', ev_newStatus = ''SUCCESS'', eventTime = 1000\<rparr>
       Map.empty ''r1'' =
     Some \<lparr>rec_status = ''SUCCESS'', rec_createdAt = 1000, rec_lastApplied = 1000\<rparr> \<and>
   applyTimes 1 \<lparr>ev_correlationId = ''r1'', ev_newStatus = ''SUCCESS'', eventTime = 1000\<rparr>
       Map.empty ''r1'' =
     Some \<lparr>rec_status = ''SUCCESS'', rec_createdAt = 1000, rec_lastApplied = 1000\<rparr> \<and>
   last (SaveTimes 3 scenarioStored NewMemoryStore) = scenarioStored"
proof -
  have h: "(0::nat) < 3" by simp
  note t = event_application_idempotent
             [OF h, of "\<lparr>ev_correlationId = ''r1'', ev_newStatus = ''SUCCESS'', eventTime = 1000\<rparr>"
                Map.empty scenarioStored NewMemoryStore]
  have once: "applyEvent \<lparr>ev_correlationId = ''r1'', ev_newStatus = ''SUCCESS'', eventTime = 1000\<rparr>
                 Map.empty ''r1'' =
               Some \<lparr>rec_status = ''SUCCESS'', rec_createdAt = 1000, rec_lastApplied = 1000\<rparr>"
    by (simp add: applyEvent_def)
  have a: "applyTimes 3 \<lparr>ev_correlationId = ''r1'', ev_newStatus = ''SUCCESS'', eventTime = 1000\<rparr>
       Map.empty ''r1'' =
     Some \<lparr>rec_status = ''SUCCESS'', rec_createdAt = 1000, rec_lastApplied = 1000\<rparr>"
    using conjunct1[OF conjunct2[OF conjunct2[OF t]]] once by simp
  have b: "applyTimes 1 \<lparr>ev_correlationId = ''r1'', ev_newStatus = ''SUCCESS'', eventTime = 1000\<rparr>
       Map.empty ''r1'' =
     Some \<lparr>rec_status = ''SUCCESS'', rec_createdAt = 1000, rec_lastApplied = 1000\<rparr>"
    using conjunct1[OF conjunct2[OF t]] once by simp
  have c: "last (SaveTimes 3 scenarioStored NewMemoryStore) = scenarioStored"
    using conjunct2[OF conjunct2[OF conjunct2[OF t]]] by (simp add: Save_def)
  show ?thesis
    using h a b c by (intro conjI)
qed

section \<open>Properties of the store HTTP handlers\<close>



lemmas handler_defs =
  writeError_def writeJSON_def StatusOK_def StatusBadRequest_def StatusInternalServerError_def

text \<open>
  C7. When the store call that a handler makes returns an error, \<open>GetUserMessages\<close> and
  \<open>GetConversations\<close> answer 500 with the error payload \<open>INTERNAL\<close>, not a list.
\<close>

theorem store_error_is_internal_error:
  "(snd (GetUserMessages trimSpace findByPhoneNumber path) = [FindByPhoneNumber phone] \<and>
      findByPhoneNumber phone = Inl err \<longrightarrow>
      fst (GetUserMessages trimSpace findByPhoneNumber path) =
        \<lparr>statusCode = 500, body = ErrorResponse ''INTERNAL'' ''could not retrieve messages''\<rparr>) \<and>
   GetConversations (Inl err) =
     (\<lparr>statusCode = 500, body = ErrorResponse ''INTERNAL'' ''could not retrieve conversations''\<rparr>,
      [GetDistinctPhoneNumbers])"
  by (auto simp: GetUserMessages_def GetConversations_def handler_defs Let_def
        split: if_splits sum.splits)

theorem store_error_is_internal_error_witness:
  "snd (GetUserMessages TrimSpaceASCII (\<lambda>p. Inl ''storage unavailable'')
          ''/v1/user/5551234567/messages'') =
     [FindByPhoneNumber ''5551234567''] \<and>
   fst (GetUserMessages TrimSpaceASCII (\<lambda>p. Inl ''storage unavailable'')
          ''/v1/user/5551234567/messages'') =
     \<lparr>statusCode = 500, body = ErrorResponse ''INTERNAL'' ''could not retrieve messages''\<rparr>"
proof -
  have called:
    "snd (GetUserMessages TrimSpaceASCII (\<lambda>p. Inl ''storage unavailable'')
            ''/v1/user/5551234567/messages'') =
       [FindByPhoneNumber ''5551234567'']"
    by (simp add: GetUserMessages_def extractPhoneNumber_def HasPrefix_def HasSuffix_def
          TrimPrefix_def TrimSuffix_def TrimSpaceASCII_def isSpaceASCII_def handler_defs)
  have failed: "(\<lambda>p. Inl ''storage unavailable'' :: string + Message slice) ''5551234567'' =
      Inl ''storage unavailable''"
    by simp
  show ?thesis
    by (rule conjI[OF called
          mp[OF conjunct1[OF store_error_is_internal_error[
                 of TrimSpaceASCII "\<lambda>p. Inl ''storage unavailable''" _ "''5551234567''"
                    "''storage unavailable''"]]
             conjI[OF called failed]]])
qed



section \<open>Properties of the client API\<close>

lemma mapMessages_throws: "(\<exists>e. mapMessages now es = Inl e) \<longleftrightarrow> None \<in> set es"
proof (induction es)
  case Nil
  then show ?case by simp
next
  case (Cons a es)
  then show ?case
    by (cases a; cases "mapMessages now es") auto
qed


lemma getUserMessages_try_throws:
  "(\<exists>e. getUserMessages_try now outcome = Inl e) \<longleftrightarrow>
   (\<exists>emsg r. outcome = Rejected emsg r) \<or> outcome = Fulfilled OtherData \<or>
   (\<exists>es. outcome = Fulfilled (ArrayData es) \<and> None \<in> set es)"
proof (cases outcome)
  case (Fulfilled d)
  then show ?thesis
    by (cases d) (simp_all add: getUserMessages_try_def mapMessages_throws)
next
  case (Rejected emsg r)
  then show ?thesis
    by (simp add: getUserMessages_try_def)
qed



lemma corrKey_optimisticMessage:
  "corrKey (optimisticMessage phone messageText response now) = resp_requestId response"
  by (simp add: corrKey_def optimisticMessage_def)

lemma corrKey_empty_id: "corrKey m = [] \<Longrightarrow> msg_id m = []"
  by (auto simp: corrKey_def split: option.splits if_splits)

lemma messages_handleSendResolved:
  "messagesOf (messages (handleSendResolved phone messageText response now s)) phone =
     messagesOf (messages s) phone @ [optimisticMessage phone messageText response now]"
  by (simp add: handleSendResolved_def Let_def schedulePoll_def pushTimer_def setTimeout_def
        clearTimers_def messagesOf_def split: option.splits)

lemma closures_handleSendResolved:
  "closures (handleSendResolved phone messageText response now s) =
     closures s @ [\<lparr>selectedPhoneNumber = phone,
                    closure_correlationId = resp_requestId response,
                    messageFound = False\<rparr>]"
  by (simp add: handleSendResolved_def Let_def schedulePoll_def pushTimer_def setTimeout_def
        clearTimers_def split: option.splits)

lemma messages_pollForMessage_resume:
  "messagesOf (messages (pollForMessage_resume n a (Inr data) s))
       (selectedPhoneNumber (closures s ! n)) =
     (case find (\<lambda>x. corrKey x = closure_correlationId (closures s ! n)) data of
        None \<Rightarrow> messagesOf (messages s) (selectedPhoneNumber (closures s ! n))
      | Some p \<Rightarrow>
          map (\<lambda>m. if corrKey m = closure_correlationId (closures s ! n) then p else m)
            (messagesOf (messages s) (selectedPhoneNumber (closures s ! n))))"
  by (simp add: pollForMessage_resume_def Let_def schedulePoll_def pushTimer_def setTimeout_def
        clearTimers_def messagesOf_def replaceInPlace_def split: option.splits)

lemma new_closure_handleSendResolved:
  "closures (handleSendResolved phone messageText response now s) ! length (closures s) =
     \<lparr>selectedPhoneNumber = phone, closure_correlationId = resp_requestId response,
      messageFound = False\<rparr>"
  by (simp add: closures_handleSendResolved)

lemma merge_after_send_by_key:
  "filter (\<lambda>e. corrKey e = resp_requestId response)
       (mergeMessages now' True data (ms @ [optimisticMessage phone messageText response now])) =
     (if resp_requestId response \<in> corrKey ` set data
      then [last (filter (\<lambda>m. corrKey m = resp_requestId response) data)]
      else if resp_requestId response \<in>
                corrKey ` set (filter (keepOptimistic now' data)
                                 (ms @ [optimisticMessage phone messageText response now]))
      then [hd (filter (\<lambda>m. corrKey m = resp_requestId response)
                  (filter (keepOptimistic now' data)
                     (ms @ [optimisticMessage phone messageText response now])))]
      else [])"
  by (rule mergeMessages_by_key) simp

text \<open>
  C9. The send entry point, as the specification gives it, returns for a request the
  Sender's identifier, status and timestamp, and \<open>sendSms\<close> hands a fulfilled response on
  unchanged. \<open>handleSend\<close> makes the optimistic entry from the response: the request id
  is the entry's id and correlation id, hence its correlation key, and it is the
  correlation id that the poll of this send compares persisted entries with. The
  request id is what joins the optimistic entry with its persisted counterpart, in both
  directions. The reconciliation filter keeps the optimistic entry exactly when no
  persisted entry has the request id as correlation key (for a non-empty id) or as id,
  and the entry is not older than 2500 ms. A poll of the send whose fetch returns puts
  the first persisted entry whose correlation key is the request id where the optimistic
  entry stood, and in place of every other local entry with that key and of no other;
  when no persisted entry has that key the list is unchanged. In the merge, when a
  persisted entry has the request id as correlation key the one entry shown for that key
  is the last such persisted entry; when no persisted entry has it as key or id, no
  other local entry has it as key and the optimistic entry is fresh, the one entry
  shown for that key is the optimistic entry.
\<close>

theorem send_response_is_join_key:
  "resp_requestId (sendEntryPoint sender request) = fst (sender request) \<and>
   resp_status (sendEntryPoint sender request) = fst (snd (sender request)) \<and>
   timestamp (sendEntryPoint sender request) = snd (snd (sender request)) \<and>
   sendSms base (Fulfilled response) = Inr response \<and>
   messagesOf (messages (handleSendResolved phone messageText response now s)) phone =
     messagesOf (messages s) phone @ [optimisticMessage phone messageText response now] \<and>
   msg_id (optimisticMessage phone messageText response now) = resp_requestId response \<and>
   correlationId (optimisticMessage phone messageText response now) =
     Some (resp_requestId response) \<and>
   status (optimisticMessage phone messageText response now) = resp_status response \<and>
   corrKey (optimisticMessage phone messageText response now) = resp_requestId response \<and>
   closure_correlationId
     (closures (handleSendResolved phone messageText response now s) ! length (closures s)) =
     resp_requestId response \<and>
   (keepOptimistic now' data (optimisticMessage phone messageText response now) \<longleftrightarrow>
      \<not> (resp_requestId response \<noteq> [] \<and> resp_requestId response \<in> corrKey ` set data) \<and>
      resp_requestId response \<notin> msg_id ` set data \<and> now' - now \<le> 2500) \<and>
   messagesOf
     (messages (pollForMessage_resume (length (closures s)) attempt (Inr data)
                  (handleSendResolved phone messageText response now s))) phone =
     (case find (\<lambda>x. corrKey x = resp_requestId response) data of
        None \<Rightarrow> messagesOf (messages s) phone @ [optimisticMessage phone messageText response now]
      | Some p \<Rightarrow>
          map (\<lambda>m. if corrKey m = resp_requestId response then p else m)
            (messagesOf (messages s) phone) @ [p]) \<and>
   (resp_requestId response \<in> corrKey ` set data \<longrightarrow>
      filter (\<lambda>e. corrKey e = resp_requestId response)
        (mergeMessages now' True data
           (ms @ [optimisticMessage phone messageText response now])) =
      [last (filter (\<lambda>m. corrKey m = resp_requestId response) data)]) \<and>
   (resp_requestId response \<notin> corrKey ` set data \<and>
    resp_requestId response \<notin> msg_id ` set data \<and>
    resp_requestId response \<notin> corrKey ` set ms \<and> now' - now \<le> 2500 \<longrightarrow>
      filter (\<lambda>e. corrKey e = resp_requestId response)
        (mergeMessages now' True data
           (ms @ [optimisticMessage phone messageText response now])) =
      [optimisticMessage phone messageText response now])"
proof -
  let ?rid = "resp_requestId response"
  let ?opt = "optimisticMessage phone messageText response now"
  let ?s1 = "handleSendResolved phone messageText response now s"
  let ?n = "length (closures s)"
  have entry: "resp_requestId (sendEntryPoint sender request) = fst (sender request) \<and>
      resp_status (sendEntryPoint sender request) = fst (snd (sender request)) \<and>
      timestamp (sendEntryPoint sender request) = snd (snd (sender request))"
    by (simp add: sendEntryPoint_def split: prod.splits)
  have sent: "sendSms base (Fulfilled response) = Inr response"
    by (simp add: sendSms_def)
  have fields: "msg_id ?opt = ?rid \<and> correlationId ?opt = Some ?rid \<and>
      status ?opt = resp_status response \<and> corrKey ?opt = ?rid"
    by (simp add: optimisticMessage_def corrKey_def)
  have created: "createdAt ?opt = now"
    by (simp add: optimisticMessage_def)
  have closure: "closures ?s1 ! ?n =
      \<lparr>selectedPhoneNumber = phone, closure_correlationId = ?rid, messageFound = False\<rparr>"
    by (rule new_closure_handleSendResolved)
  have keep: "keepOptimistic now' data ?opt \<longleftrightarrow>
      \<not> (?rid \<noteq> [] \<and> ?rid \<in> corrKey ` set data) \<and> ?rid \<notin> msg_id ` set data \<and>
      now' - now \<le> 2500"
    unfolding keepOptimistic_iff using fields created by simp
  have poll: "messagesOf (messages (pollForMessage_resume ?n attempt (Inr data) ?s1)) phone =
     (case find (\<lambda>x. corrKey x = ?rid) data of
        None \<Rightarrow> messagesOf (messages s) phone @ [?opt]
      | Some p \<Rightarrow> map (\<lambda>m. if corrKey m = ?rid then p else m) (messagesOf (messages s) phone) @ [p])"
    using messages_pollForMessage_resume[of ?n attempt data ?s1]
    by (simp add: closure messages_handleSendResolved fields split: option.splits)
  have persisted: "filter (\<lambda>e. corrKey e = ?rid) (mergeMessages now' True data (ms @ [?opt])) =
      [last (filter (\<lambda>m. corrKey m = ?rid) data)]"
    if "?rid \<in> corrKey ` set data"
    unfolding merge_after_send_by_key using that by simp
  have optimistic: "filter (\<lambda>e. corrKey e = ?rid) (mergeMessages now' True data (ms @ [?opt])) =
      [?opt]"
    if absent: "?rid \<notin> corrKey ` set data" "?rid \<notin> msg_id ` set data"
      "?rid \<notin> corrKey ` set ms" "now' - now \<le> 2500"
  proof -
    have kept: "keepOptimistic now' data ?opt"
      using keep absent by simp
    have none: "filter (\<lambda>m. corrKey m = ?rid) (filter (keepOptimistic now' data) ms) = []"
      using absent(3) by (force simp: filter_empty_conv image_iff)
    have sel: "filter (\<lambda>m. corrKey m = ?rid) (filter (keepOptimistic now' data) (ms @ [?opt])) =
        [?opt]"
      using none kept fields by simp
    have "?rid \<in> corrKey ` set (filter (keepOptimistic now' data) (ms @ [?opt]))"
      using kept fields by force
    then show ?thesis
      unfolding merge_after_send_by_key sel using absent(1) by simp
  qed
  show ?thesis
    using entry sent fields closure keep poll persisted optimistic
    by (simp add: messages_handleSendResolved)
qed

theorem send_response_is_join_key_witness:
  "resp_requestId (sendEntryPoint (\<lambda>r. (''r1'', ''PENDING'', 1000))
      \<lparr>req_phoneNumber = ''+15551234567'', req_message = ''hi''\<rparr>) = ''r1'' \<and>
   sendSms ''http://localhost:8081/v1'' (Fulfilled scenarioResponse) = Inr scenarioResponse \<and>
   corrKey scenarioOptimistic = ''r1'' \<and>
   ''r1'' \<in> corrKey ` set [scenarioPersisted] \<and>
   \<not> keepOptimistic 1500 [scenarioPersisted] scenarioOptimistic \<and>
   keepOptimistic 1500 [] scenarioOptimistic \<and>
   messagesOf (messages (pollForMessage_resume 0 0 (Inr [scenarioPersisted]) scenarioSent))
     ''+15551234567'' = [scenarioPersisted] \<and>
   messagesOf (messages (pollForMessage_resume 0 0 (Inr []) scenarioSent))
     ''+15551234567'' = [scenarioOptimistic] \<and>
   filter (\<lambda>e. corrKey e = ''r1'')
     (mergeMessages 1500 True [scenarioPersisted] [scenarioOptimistic]) = [scenarioPersisted] \<and>
   filter (\<lambda>e. corrKey e = ''r1'') (mergeMessages 1500 True [] [scenarioOptimistic]) =
     [scenarioOptimistic]"
proof -
  note found = send_response_is_join_key
    [where sender = "\<lambda>r. (''r1'', ''PENDING'', 1000)"
       and request = "\<lparr>req_phoneNumber = ''+15551234567'', req_message = ''hi''\<rparr>"
       and base = "''http://localhost:8081/v1''" and response = scenarioResponse
       and phone = "''+15551234567''" and messageText = "''hi''" and now = 1000
       and s = initialState and now' = 1500 and data = "[scenarioPersisted]"
       and attempt = 0 and ms = "[]"]
  note missing = send_response_is_join_key
    [where sender = "\<lambda>r. (''r1'', ''PENDING'', 1000)"
       and request = "\<lparr>req_phoneNumber = ''+15551234567'', req_message = ''hi''\<rparr>"
       and base = "''http://localhost:8081/v1''" and response = scenarioResponse
       and phone = "''+15551234567''" and messageText = "''hi''" and now = 1000
       and s = initialState and now' = 1500 and data = "[]"
       and attempt = 0 and ms = "[]"]
  have rid: "resp_requestId scenarioResponse = ''r1''"
    by (simp add: scenarioResponse_def)
  have key: "corrKey scenarioPersisted = ''r1''" "msg_id scenarioPersisted = ''m1''"
    by (simp_all add: scenarioPersisted_def corrKey_def)
  have sent: "scenarioSent = handleSendResolved ''+15551234567'' ''hi'' scenarioResponse 1000 initialState"
    by (simp add: scenarioSent_def run_def)
  have start: "length (closures initialState) = 0" "messagesOf (messages initialState) ''+15551234567'' = []"
    by (simp_all add: initialState_def messagesOf_def)
  have present: "resp_requestId scenarioResponse \<in> corrKey ` set [scenarioPersisted]"
    by (simp add: rid key)
  have absent: "resp_requestId scenarioResponse \<notin> corrKey ` set [] \<and>
      resp_requestId scenarioResponse \<notin> msg_id ` set [] \<and>
      resp_requestId scenarioResponse \<notin> corrKey ` set [] \<and> (1500::int) - 1000 \<le> 2500"
    by simp
  note f2 = conjunct2[OF found]
  note f5 = conjunct2[OF conjunct2[OF conjunct2[OF f2]]]
  note f9 = conjunct2[OF conjunct2[OF conjunct2[OF conjunct2[OF f5]]]]
  note f11 = conjunct2[OF conjunct2[OF f9]]
  note f12 = conjunct2[OF f11]
  note f13 = conjunct2[OF f12]
  note m11 = conjunct2[OF conjunct2[OF conjunct2[OF conjunct2[OF conjunct2[OF conjunct2[OF
               conjunct2[OF conjunct2[OF conjunct2[OF conjunct2[OF missing]]]]]]]]]]
  note m12 = conjunct2[OF m11]
  note m14 = conjunct2[OF conjunct2[OF m12]]
  have c1: "resp_requestId (sendEntryPoint (\<lambda>r. (''r1'', ''PENDING'', 1000))
      \<lparr>req_phoneNumber = ''+15551234567'', req_message = ''hi''\<rparr>) = ''r1''"
    using conjunct1[OF found] by simp
  have c2: "sendSms ''http://localhost:8081/v1'' (Fulfilled scenarioResponse) = Inr scenarioResponse"
    by (rule conjunct1[OF conjunct2[OF conjunct2[OF f2]]])
  have c3: "corrKey scenarioOptimistic = ''r1''"
    using conjunct1[OF f9] by (simp add: scenarioOptimistic_def rid)
  have c4: "''r1'' \<in> corrKey ` set [scenarioPersisted]"
    using present by (simp add: rid)
  have c5: "\<not> keepOptimistic 1500 [scenarioPersisted] scenarioOptimistic"
    using conjunct1[OF f11] by (simp add: scenarioOptimistic_def rid key)
  have c6: "keepOptimistic 1500 [] scenarioOptimistic"
    using conjunct1[OF m11] by (simp add: scenarioOptimistic_def)
  have c7: "messagesOf (messages (pollForMessage_resume 0 0 (Inr [scenarioPersisted]) scenarioSent))
     ''+15551234567'' = [scenarioPersisted]"
    using conjunct1[OF f12] by (simp add: sent start rid key)
  have c8: "messagesOf (messages (pollForMessage_resume 0 0 (Inr []) scenarioSent))
     ''+15551234567'' = [scenarioOptimistic]"
    using conjunct1[OF m12] by (simp add: sent start scenarioOptimistic_def)
  have c9: "filter (\<lambda>e. corrKey e = ''r1'')
     (mergeMessages 1500 True [scenarioPersisted] [scenarioOptimistic]) = [scenarioPersisted]"
    using mp[OF conjunct1[OF f13] present] by (simp add: scenarioOptimistic_def rid key)
  have c10: "filter (\<lambda>e. corrKey e = ''r1'') (mergeMessages 1500 True [] [scenarioOptimistic]) =
     [scenarioOptimistic]"
    using mp[OF m14 absent] by (simp add: scenarioOptimistic_def rid)
  show ?thesis
    using c1 c2 c3 c4 c5 c6 c7 c8 c9 c10 by (intro conjI)
qed

section \<open>Properties of sending and polling\<close>

text \<open>The effect of each operation on the views of a send.\<close>

lemma setTimeout_fields [simp]:
  "pendingTimers (setTimeout m a d s) =
     pendingTimers s @ [\<lparr>timer_id = nextTimer s, timer_send = m, timer_attempt = a, timer_delay = d\<rparr>]"
  "retryTimers (setTimeout m a d s) = retryTimers s"
  "awaiting (setTimeout m a d s) = awaiting s"
  "closures (setTimeout m a d s) = closures s"
  "fetches (setTimeout m a d s) = fetches s"
  "reloads (setTimeout m a d s) = reloads s"
  "messages (setTimeout m a d s) = messages s"
  "nextTimer (setTimeout m a d s) = Suc (nextTimer s)"
  by (simp_all add: setTimeout_def)

lemma pushTimer_fields [simp]:
  "pendingTimers (pushTimer p tid s) = pendingTimers s"
  "retryTimers (pushTimer p tid s) =
     (retryTimers s)(p \<mapsto> (case retryTimers s p of None \<Rightarrow> [] | Some ts \<Rightarrow> ts) @ [tid])"
  "awaiting (pushTimer p tid s) = awaiting s"
  "closures (pushTimer p tid s) = closures s"
  "fetches (pushTimer p tid s) = fetches s"
  "reloads (pushTimer p tid s) = reloads s"
  "messages (pushTimer p tid s) = messages s"
  "nextTimer (pushTimer p tid s) = nextTimer s"
  by (simp_all add: pushTimer_def)

lemma pendingTimers_clearTimers:
  "pendingTimers (clearTimers p s) =
     (case retryTimers s p of
        None \<Rightarrow> pendingTimers s
      | Some ts \<Rightarrow> filter (\<lambda>t. timer_id t \<notin> set ts) (pendingTimers s))"
  by (simp add: clearTimers_def split: option.splits)

lemma clearTimers_fields [simp]:
  "retryTimers (clearTimers p s) =
     (case retryTimers s p of None \<Rightarrow> retryTimers s | Some ts \<Rightarrow> (retryTimers s)(p \<mapsto> []))"
  "awaiting (clearTimers p s) = awaiting s"
  "closures (clearTimers p s) = closures s"
  "fetches (clearTimers p s) = fetches s"
  "reloads (clearTimers p s) = reloads s"
  "messages (clearTimers p s) = messages s"
  "nextTimer (clearTimers p s) = nextTimer s"
  by (simp_all add: clearTimers_def split: option.splits)

lemma schedulePoll_fields [simp]:
  "pendingTimers (schedulePoll m a p s) =
     pendingTimers s @
       [\<lparr>timer_id = nextTimer s, timer_send = m, timer_attempt = a, timer_delay = pollDelays ! a\<rparr>]"
  "retryTimers (schedulePoll m a p s) =
     (retryTimers s)(p \<mapsto> (case retryTimers s p of None \<Rightarrow> [] | Some ts \<Rightarrow> ts) @ [nextTimer s])"
  "awaiting (schedulePoll m a p s) = awaiting s"
  "closures (schedulePoll m a p s) = closures s"
  "fetches (schedulePoll m a p s) = fetches s"
  "reloads (schedulePoll m a p s) = reloads s"
  "messages (schedulePoll m a p s) = messages s"
  "nextTimer (schedulePoll m a p s) = Suc (nextTimer s)"
  by (simp_all add: schedulePoll_def)

lemma handleSendResolved_fields:
  "pendingTimers (handleSendResolved p tx r now s) =
     pendingTimers (clearTimers p s) @
       [\<lparr>timer_id = nextTimer s, timer_send = length (closures s), timer_attempt = 0,
         timer_delay = pollDelays ! 0\<rparr>]"
  "retryTimers (handleSendResolved p tx r now s) = (retryTimers s)(p \<mapsto> [nextTimer s])"
  "awaiting (handleSendResolved p tx r now s) = awaiting s"
  "closures (handleSendResolved p tx r now s) =
     closures s @ [\<lparr>selectedPhoneNumber = p, closure_correlationId = resp_requestId r,
                    messageFound = False\<rparr>]"
  "fetches (handleSendResolved p tx r now s) = fetches s"
  "reloads (handleSendResolved p tx r now s) = reloads s"
  "nextTimer (handleSendResolved p tx r now s) = Suc (nextTimer s)"
  by (simp_all add: handleSendResolved_def Let_def clearTimers_def split: option.splits)


lemma pendingTimers_clearTimers_filter:
  "\<exists>P. pendingTimers (clearTimers p s) = filter P (pendingTimers s)"
proof (cases "retryTimers s p")
  case None
  then have "pendingTimers (clearTimers p s) = filter (\<lambda>t. True) (pendingTimers s)"
    by (simp add: pendingTimers_clearTimers)
  then show ?thesis by blast
next
  case (Some ts)
  then have "pendingTimers (clearTimers p s) = filter (\<lambda>t. timer_id t \<notin> set ts) (pendingTimers s)"
    by (simp add: pendingTimers_clearTimers)
  then show ?thesis by blast
qed

lemma awaitingOf_remove1:
  "map snd (filter (\<lambda>p. fst p = n) (remove1 (m, a) xs)) =
     (if n = m then remove1 a (map snd (filter (\<lambda>p. fst p = n) xs))
      else map snd (filter (\<lambda>p. fst p = n) xs))"
  by (induction xs) auto

text \<open>A step that only removes timeouts of a send leaves its chain intact.\<close>

lemma chain_frame:
  assumes "chain n s"
      and "timersOf n s' = filter P (timersOf n s)"
      and "awaitingOf n s' = awaitingOf n s"
      and "attemptsOf n s' = attemptsOf n s"
      and "reloadsOf n s' = reloadsOf n s"
      and "messageFound (closures s' ! n) = messageFound (closures s ! n)"
  shows "chain n s'"
proof -
  have "filter P (timersOf n s) = timersOf n s \<or> filter P (timersOf n s) = []"
    using assms(1) by (auto simp: chain_def idle_def split: if_splits)
  then show ?thesis
    using assms by (auto simp: chain_def idle_def)
qed

lemma chain_idle:
  assumes "chain n s"
      and "idle n s'"
      and "attemptsOf n s' = attemptsOf n s"
      and "reloadsOf n s' \<le> 1"
  shows "chain n s'"
  using assms by (simp add: chain_def)

lemma chain_timer:
  assumes "chain n s" and "timersOf n s \<noteq> []"
  shows "\<exists>t. timersOf n s = [t] \<and> awaitingOf n s = [] \<and>
             timer_attempt t = length (attemptsOf n s) \<and> timer_attempt t < 4 \<and>
             reloadsOf n s = 0 \<and> \<not> messageFound (closures s ! n)"
  using assms by (auto simp: chain_def idle_def)

lemma chain_awaiting:
  assumes "chain n s" and "awaitingOf n s \<noteq> []"
  shows "\<exists>a. timersOf n s = [] \<and> awaitingOf n s = [a] \<and>
             Suc a = length (attemptsOf n s) \<and>
             reloadsOf n s = 0 \<and> \<not> messageFound (closures s ! n)"
  using assms by (auto simp: chain_def idle_def)

lemma upt_snoc_eq: "xs = [0..<length xs] \<Longrightarrow> xs @ [length xs] = [0..<Suc (length xs)]"
  by (metis add_0 upt_Suc_append zero_le)

lemma timersOf_filter_pending:
  "pendingTimers s' = filter P (pendingTimers s) \<Longrightarrow> timersOf n s' = filter P (timersOf n s)"
  by (auto simp: timersOf_def intro: filter_cong)

lemma indexed_views_new:
  assumes "indexed s"
  shows "timersOf (length (closures s)) s = []"
    and "awaitingOf (length (closures s)) s = []"
    and "attemptsOf (length (closures s)) s = []"
    and "reloadsOf (length (closures s)) s = 0"
  using assms
  by (auto simp: indexed_def timersOf_def awaitingOf_def attemptsOf_def reloadsOf_def
        filter_empty_conv)

lemma chain_above:
  assumes "indexed s" and "length (closures s) \<le> n"
  shows "idle n s" and "attemptsOf n s = []" and "reloadsOf n s = 0"
  using assms
  by (auto simp: indexed_def idle_def timersOf_def awaitingOf_def attemptsOf_def
        reloadsOf_def filter_empty_conv)

subsection \<open>A send starts\<close>

lemma chain_SendResolved:
  assumes "chain n s" and "indexed s"
  shows "chain n (step (SendResolved p tx r now) s)"
proof -
  let ?s' = "handleSendResolved p tx r now s"
  let ?N = "length (closures s)"
  obtain P where P: "pendingTimers (clearTimers p s) = filter P (pendingTimers s)"
    using pendingTimers_clearTimers_filter by blast
  show ?thesis
  proof (cases "n = ?N")
    case True
    have "timersOf n ?s' =
            [\<lparr>timer_id = nextTimer s, timer_send = ?N, timer_attempt = 0,
              timer_delay = pollDelays ! 0\<rparr>]"
      using indexed_views_new(1)[OF assms(2)] True P
      by (auto simp: timersOf_def handleSendResolved_fields filter_empty_conv)
    moreover have "awaitingOf n ?s' = []"
      using indexed_views_new(2)[OF assms(2)] True
      by (simp add: awaitingOf_def handleSendResolved_fields)
    moreover have "attemptsOf n ?s' = []"
      using indexed_views_new(3)[OF assms(2)] True
      by (simp add: attemptsOf_def handleSendResolved_fields)
    moreover have "reloadsOf n ?s' = 0"
      using indexed_views_new(4)[OF assms(2)] True
      by (simp add: reloadsOf_def handleSendResolved_fields)
    moreover have "\<not> messageFound (closures ?s' ! n)"
      using True by (simp add: handleSendResolved_fields)
    ultimately show ?thesis by (simp add: chain_def)
  next
    case False
    have t: "timersOf n ?s' = filter P (timersOf n s)"
      using False P by (auto simp: timersOf_def handleSendResolved_fields intro: filter_cong)
    have a: "awaitingOf n ?s' = awaitingOf n s"
      by (simp add: awaitingOf_def handleSendResolved_fields)
    have f: "attemptsOf n ?s' = attemptsOf n s"
      by (simp add: attemptsOf_def handleSendResolved_fields)
    have r: "reloadsOf n ?s' = reloadsOf n s"
      by (simp add: reloadsOf_def handleSendResolved_fields)
    show ?thesis
    proof (cases "n < ?N")
      case True
      then have "messageFound (closures ?s' ! n) = messageFound (closures s ! n)"
        by (simp add: handleSendResolved_fields nth_append)
      then show ?thesis using chain_frame[OF assms(1) t a f r] by simp
    next
      case above: False
      then have "idle n s" using chain_above(1)[OF assms(2)] by simp
      then have "idle n ?s'" using t a by (simp add: idle_def)
      then show ?thesis using chain_idle[OF assms(1) _ f] r assms(1) by (simp add: chain_def)
    qed
  qed
qed

lemma indexed_SendResolved:
  assumes "indexed s"
  shows "indexed (step (SendResolved p tx r now) s)"
  using assms
  by (auto simp: indexed_def handleSendResolved_fields pendingTimers_clearTimers less_Suc_eq
        split: option.splits)

subsection \<open>A timeout fires\<close>

lemma find_timer: "find (\<lambda>t. timer_id t = tid) ts = Some t \<Longrightarrow> t \<in> set ts \<and> timer_id t = tid"
  by (auto simp: find_Some_iff)

lemma chain_TimerFires:
  assumes "chain n s"
  shows "chain n (step (TimerFires tid) s)"
proof (cases "find (\<lambda>t. timer_id t = tid) (pendingTimers s)")
  case None
  then show ?thesis using assms by simp
next
  case (Some t)
  let ?m = "timer_send t"
  let ?a = "timer_attempt t"
  let ?s1 = "s\<lparr>pendingTimers := filter (\<lambda>u. timer_id u \<noteq> tid) (pendingTimers s)\<rparr>"
  let ?s' = "step (TimerFires tid) s"
  have t_in: "t \<in> set (pendingTimers s)" and t_id: "timer_id t = tid"
    using find_timer[OF Some] by simp_all
  have step_eq: "?s' = pollForMessage_start ?m ?a ?s1" using Some by simp
  have tf: "timersOf n ?s' = filter (\<lambda>u. timer_id u \<noteq> tid) (timersOf n s)"
    unfolding step_eq
    by (auto simp: pollForMessage_start_def timersOf_def intro: filter_cong)
  have fl: "messageFound (closures ?s' ! n) = messageFound (closures s ! n)"
    unfolding step_eq by (simp add: pollForMessage_start_def)
  show ?thesis
  proof (cases "messageFound (closures s ! ?m) \<or> n \<noteq> ?m")
    case True
    have a: "awaitingOf n ?s' = awaitingOf n s"
      unfolding step_eq using True by (auto simp: pollForMessage_start_def awaitingOf_def)
    have f: "attemptsOf n ?s' = attemptsOf n s"
      unfolding step_eq using True by (auto simp: pollForMessage_start_def attemptsOf_def)
    have r: "reloadsOf n ?s' = reloadsOf n s"
      unfolding step_eq by (simp add: pollForMessage_start_def reloadsOf_def)
    show ?thesis by (rule chain_frame[OF assms tf a f r fl])
  next
    case False
    then have nm: "n = ?m" and nf: "\<not> messageFound (closures s ! n)" by simp_all
    have "t \<in> set (timersOf n s)" using t_in nm by (simp add: timersOf_def)
    then have ne: "timersOf n s \<noteq> []" by auto
    obtain t' where c: "timersOf n s = [t']" "awaitingOf n s = []"
        "timer_attempt t' = length (attemptsOf n s)" "timer_attempt t' < 4" "reloadsOf n s = 0"
      using chain_timer[OF assms ne] by blast
    have tt: "t' = t" using \<open>t \<in> set (timersOf n s)\<close> c(1) by simp
    have t0: "timersOf n ?s' = []" using tf c(1) tt t_id by simp
    have a: "awaitingOf n ?s' = [?a]"
      unfolding step_eq using nf nm c(2) by (simp add: pollForMessage_start_def awaitingOf_def)
    have f: "attemptsOf n ?s' = attemptsOf n s @ [?a]"
      unfolding step_eq using nf nm by (simp add: pollForMessage_start_def attemptsOf_def)
    have r: "reloadsOf n ?s' = 0"
      unfolding step_eq using c(5) by (simp add: pollForMessage_start_def reloadsOf_def)
    have seq: "attemptsOf n s = [0..<length (attemptsOf n s)]"
      using assms by (simp add: chain_def)
    have f2: "attemptsOf n ?s' = [0..<length (attemptsOf n ?s')]"
      using upt_snoc_eq[OF seq] f c(3) tt by simp
    have len: "length (attemptsOf n ?s') \<le> 4" using f c(3,4) tt by simp
    have "Suc ?a = length (attemptsOf n ?s')" using f c(3) tt by simp
    then show ?thesis
      using t0 a f2 len r nf fl by (simp add: chain_def)
  qed
qed

lemma indexed_TimerFires:
  assumes "indexed s"
  shows "indexed (step (TimerFires tid) s)"
proof (cases "find (\<lambda>t. timer_id t = tid) (pendingTimers s)")
  case None
  then show ?thesis using assms by simp
next
  case (Some t)
  then have "t \<in> set (pendingTimers s)" using find_timer by blast
  then have "timer_send t < length (closures s)" using assms by (simp add: indexed_def)
  then show ?thesis
    using assms Some by (auto simp: indexed_def pollForMessage_start_def)
qed

subsection \<open>A fetch returns\<close>

text \<open>The four ways in which \<open>pollForMessage\<close> goes on after its fetch.\<close>

lemma pollForMessage_resume_disj:
  "(\<exists>data p. fetched = Inr data \<and>
      find (\<lambda>x. corrKey x = closure_correlationId (closures s ! m)) data = Some p \<and>
      pollForMessage_resume m a fetched s =
         clearTimers (selectedPhoneNumber (closures s ! m))
           (s\<lparr>closures := (closures s)[m := (closures s ! m)\<lparr>messageFound := True\<rparr>],
              messages := (messages s)
                (selectedPhoneNumber (closures s ! m) \<mapsto>
                   replaceInPlace (closure_correlationId (closures s ! m)) p
                     (messagesOf (messages s) (selectedPhoneNumber (closures s ! m))))\<rparr>)) \<or>
   (a < 3 \<and> \<not> messageFound (closures s ! m) \<and>
      pollForMessage_resume m a fetched s =
        schedulePoll m (Suc a) (selectedPhoneNumber (closures s ! m)) s) \<or>
   (\<exists>data. fetched = Inr data \<and>
      find (\<lambda>x. corrKey x = closure_correlationId (closures s ! m)) data = None \<and>
      \<not> a < 3 \<and> \<not> messageFound (closures s ! m) \<and>
      pollForMessage_resume m a fetched s = s\<lparr>reloads := reloads s @ [m]\<rparr>) \<or>
   pollForMessage_resume m a fetched s = s"
  by (auto simp: pollForMessage_resume_def Let_def pollDelays_def
        split: sum.splits option.splits)

lemma pollForMessage_resume_cases:
  fixes m a fetched s
  defines "c \<equiv> closures s ! m"
  obtains
    (Found) data p where
      "fetched = Inr data"
      "find (\<lambda>x. corrKey x = closure_correlationId c) data = Some p"
      "pollForMessage_resume m a fetched s =
         clearTimers (selectedPhoneNumber c)
           (s\<lparr>closures := (closures s)[m := c\<lparr>messageFound := True\<rparr>],
              messages := (messages s)
                (selectedPhoneNumber c \<mapsto>
                   replaceInPlace (closure_correlationId c) p
                     (messagesOf (messages s) (selectedPhoneNumber c)))\<rparr>)"
  | (Retry) "a < 3" "\<not> messageFound c"
      "pollForMessage_resume m a fetched s = schedulePoll m (Suc a) (selectedPhoneNumber c) s"
  | (Reload) data where
      "fetched = Inr data"
      "find (\<lambda>x. corrKey x = closure_correlationId c) data = None"
      "\<not> a < 3" "\<not> messageFound c"
      "pollForMessage_resume m a fetched s = s\<lparr>reloads := reloads s @ [m]\<rparr>"
  | (Stop) "pollForMessage_resume m a fetched s = s"
  using pollForMessage_resume_disj[of fetched s m a] unfolding c_def
  by (elim disjE exE conjE) blast+

lemma chain_FetchReturns:
  assumes "chain n s"
  shows "chain n (step (FetchReturns m a fetched) s)"
proof (cases "(m, a) \<in> set (awaiting s)")
  case False
  then show ?thesis using assms by simp
next
  case True
  let ?s1 = "s\<lparr>awaiting := remove1 (m, a) (awaiting s)\<rparr>"
  let ?s' = "step (FetchReturns m a fetched) s"
  let ?c = "closures ?s1 ! m"
  have step_eq: "?s' = pollForMessage_resume m a fetched ?s1" using True by simp
  have cl1: "closures ?s1 = closures s" by simp
  show ?thesis
  proof (cases "n = m")
    case False
    have a1: "awaitingOf n ?s1 = awaitingOf n s"
      using False by (simp add: awaitingOf_def awaitingOf_remove1)
    have c1: "chain n ?s1"
      by (rule chain_frame[OF assms, where P = "\<lambda>t. True"])
         (simp_all add: a1, simp_all add: timersOf_def attemptsOf_def reloadsOf_def)
    have "chain n (pollForMessage_resume m a fetched ?s1)"
    proof (rule pollForMessage_resume_cases[where m=m and a=a and fetched=fetched and s="?s1"],
        goal_cases Found Retry Reload Stop)
      case (Found data p)
      obtain P where P: "pendingTimers (pollForMessage_resume m a fetched ?s1) =
                           filter P (pendingTimers ?s1)"
        unfolding Found(3) using pendingTimers_clearTimers_filter
        by (metis (no_types, lifting) ui_state.select_convs(3) ui_state.surjective
              ui_state.update_convs(1,5))
      show ?thesis
        apply (rule chain_frame[OF c1 timersOf_filter_pending[OF P]])
        using False by (simp_all add: Found(3) awaitingOf_def attemptsOf_def reloadsOf_def)
    next
      case Retry
      show ?thesis
        apply (rule chain_frame[OF c1, where P = "\<lambda>t. True"])
        using False
        by (simp_all add: Retry(3) timersOf_def awaitingOf_def attemptsOf_def reloadsOf_def)
    next
      case (Reload data)
      show ?thesis
        apply (rule chain_frame[OF c1, where P = "\<lambda>t. True"])
        using False
        by (simp_all add: Reload(5) timersOf_def awaitingOf_def attemptsOf_def reloadsOf_def)
    next
      case Stop
      then show ?thesis using c1 by simp
    qed
    then show ?thesis by (simp only: step_eq)
  next
    case nm: True
    have "a \<in> set (awaitingOf n s)" using True nm by (force simp: awaitingOf_def)
    then have ne: "awaitingOf n s \<noteq> []" by auto
    obtain a' where c: "timersOf n s = []" "awaitingOf n s = [a']"
        "Suc a' = length (attemptsOf n s)" "reloadsOf n s = 0"
        "\<not> messageFound (closures s ! n)"
      using chain_awaiting[OF assms ne] by blast
    have aa: "a' = a" using \<open>a \<in> set (awaitingOf n s)\<close> c(2) by simp
    have t1: "timersOf n ?s1 = []" using c(1) by (simp add: timersOf_def)
    have a1: "awaitingOf n ?s1 = []"
      using c(2) aa nm by (simp add: awaitingOf_def awaitingOf_remove1)
    have f1: "attemptsOf n ?s1 = attemptsOf n s" by (simp add: attemptsOf_def)
    have r1: "reloadsOf n ?s1 = reloadsOf n s" by (simp add: reloadsOf_def)
    have "chain n (pollForMessage_resume m a fetched ?s1)"
    proof (rule pollForMessage_resume_cases[where m=m and a=a and fetched=fetched and s="?s1"],
        goal_cases Found Retry Reload Stop)
      case (Found data p)
      obtain P where P: "pendingTimers (pollForMessage_resume m a fetched ?s1) =
                           filter P (pendingTimers ?s1)"
        unfolding Found(3) using pendingTimers_clearTimers_filter
        by (metis (no_types, lifting) ui_state.select_convs(3) ui_state.surjective
              ui_state.update_convs(1,5))
      have "timersOf n (pollForMessage_resume m a fetched ?s1) = []"
        using timersOf_filter_pending[OF P, of n] t1 by simp
      moreover have "awaitingOf n (pollForMessage_resume m a fetched ?s1) = []"
        using a1 by (simp add: Found(3) awaitingOf_def)
      ultimately have "idle n (pollForMessage_resume m a fetched ?s1)" by (simp add: idle_def)
      then show ?thesis
        apply (rule chain_idle[OF assms])
        using c(4) by (simp_all add: Found(3) attemptsOf_def reloadsOf_def)
    next
      case Retry
      let ?t = "\<lparr>timer_id = nextTimer ?s1, timer_send = m, timer_attempt = Suc a,
                 timer_delay = pollDelays ! Suc a\<rparr>"
      have "timersOf n (pollForMessage_resume m a fetched ?s1) = [?t]"
        using t1 nm by (simp add: Retry(3) timersOf_def)
      moreover have "awaitingOf n (pollForMessage_resume m a fetched ?s1) = []"
        using a1 by (simp add: Retry(3) awaitingOf_def)
      moreover have "attemptsOf n (pollForMessage_resume m a fetched ?s1) = attemptsOf n s"
        by (simp add: Retry(3) attemptsOf_def)
      moreover have "reloadsOf n (pollForMessage_resume m a fetched ?s1) = 0"
        using c(4) by (simp add: Retry(3) reloadsOf_def)
      moreover have "\<not> messageFound (closures (pollForMessage_resume m a fetched ?s1) ! n)"
        using c(5) by (simp add: Retry(3))
      ultimately show ?thesis
        using assms c(3) aa Retry(1) by (simp add: chain_def)
    next
      case (Reload data)
      have "idle n (pollForMessage_resume m a fetched ?s1)"
        using t1 a1 by (simp add: Reload(5) idle_def timersOf_def awaitingOf_def)
      then show ?thesis
        apply (rule chain_idle[OF assms])
        using c(4) nm by (simp_all add: Reload(5) attemptsOf_def reloadsOf_def)
    next
      case Stop
      have "idle n ?s1" using t1 a1 by (simp add: idle_def)
      then show ?thesis
        unfolding Stop
        apply (rule chain_idle[OF assms])
        using c(4) by (simp_all add: attemptsOf_def reloadsOf_def)
    qed
    then show ?thesis by (simp only: step_eq)
  qed
qed

lemma indexed_FetchReturns:
  assumes "indexed s"
  shows "indexed (step (FetchReturns m a fetched) s)"
proof (cases "(m, a) \<in> set (awaiting s)")
  case False
  then show ?thesis using assms by simp
next
  case True
  let ?s1 = "s\<lparr>awaiting := remove1 (m, a) (awaiting s)\<rparr>"
  have m: "m < length (closures s)" using assms True by (force simp: indexed_def)
  have i1: "indexed ?s1"
    using assms by (auto simp: indexed_def dest: notin_set_remove1)
  have "indexed (pollForMessage_resume m a fetched ?s1)"
  proof (rule pollForMessage_resume_cases[where m=m and a=a and fetched=fetched and s="?s1"],
      goal_cases Found Retry Reload Stop)
    case (Found data p)
    then show ?case
      using i1 by (auto simp: indexed_def pendingTimers_clearTimers split: option.splits)
  next
    case Retry
    then show ?case using i1 m by (auto simp: indexed_def)
  next
    case (Reload data)
    then show ?case using i1 m by (auto simp: indexed_def)
  next
    case Stop
    then show ?case using i1 by simp
  qed
  then show ?thesis using True by simp
qed

lemma chain_step:
  assumes "chain n s" and "indexed s"
  shows "chain n (step e s)"
proof (cases e)
  case (SendResolved p tx r now)
  then show ?thesis using chain_SendResolved[OF assms] by simp
next
  case (TimerFires tid)
  then show ?thesis using chain_TimerFires[OF assms(1)] by simp
next
  case (FetchReturns m a fetched)
  then show ?thesis using chain_FetchReturns[OF assms(1)] by simp
next
  case (MessagesSet ms)
  have "chain n (s\<lparr>messages := ms\<rparr>)"
    by (rule chain_frame[OF assms(1), where P = "\<lambda>t. True"])
       (simp_all add: timersOf_def awaitingOf_def attemptsOf_def reloadsOf_def)
  then show ?thesis using MessagesSet by simp
qed

lemma indexed_step:
  assumes "indexed s"
  shows "indexed (step e s)"
proof (cases e)
  case (SendResolved p tx r now)
  then show ?thesis using indexed_SendResolved[OF assms] by simp
next
  case (TimerFires tid)
  then show ?thesis using indexed_TimerFires[OF assms] by simp
next
  case (FetchReturns m a fetched)
  then show ?thesis using indexed_FetchReturns[OF assms] by simp
next
  case (MessagesSet ms)
  then show ?thesis using assms by (simp add: indexed_def)
qed

lemma scheduled_step:
  assumes "scheduled s"
  shows "scheduled (step e s)"
proof (cases e)
  case (SendResolved p tx r now)
  then show ?thesis
    using assms
    by (auto simp: scheduled_def handleSendResolved_fields pendingTimers_clearTimers
          pollDelays_def split: option.splits)
next
  case (TimerFires tid)
  then show ?thesis
    using assms
    by (auto simp: scheduled_def pollForMessage_start_def split: option.splits)
next
  case (FetchReturns m a fetched)
  let ?s1 = "s\<lparr>awaiting := remove1 (m, a) (awaiting s)\<rparr>"
  have s1: "scheduled ?s1" using assms by (simp add: scheduled_def)
  have "scheduled (pollForMessage_resume m a fetched ?s1)"
  proof (rule pollForMessage_resume_cases[where m=m and a=a and fetched=fetched and s="?s1"],
      goal_cases Found Retry Reload Stop)
    case (Found data p)
    then show ?case
      using s1 by (auto simp: scheduled_def pendingTimers_clearTimers split: option.splits)
  next
    case Retry
    then show ?case using s1 by (auto simp: scheduled_def pollDelays_def)
  next
    case (Reload data)
    then show ?case using s1 by (auto simp: scheduled_def)
  next
    case Stop
    then show ?case using s1 by simp
  qed
  then show ?thesis using FetchReturns assms by simp
next
  case (MessagesSet ms)
  then show ?thesis using assms by (simp add: scheduled_def)
qed

lemma invariants_initial:
  "chain n initialState" "indexed initialState" "scheduled initialState"
  by (simp_all add: chain_def idle_def indexed_def scheduled_def initialState_def
        timersOf_def awaitingOf_def attemptsOf_def reloadsOf_def)

lemma reachable_invariants:
  assumes "reachable s"
  shows "indexed s \<and> scheduled s \<and> (\<forall>n. chain n s)"
  using assms
proof (induction rule: reachable.induct)
  case reachable_init
  show ?case using invariants_initial by blast
next
  case (reachable_step s e)
  then show ?case using chain_step indexed_step scheduled_step by blast
qed

lemma reachable_run: "reachable s \<Longrightarrow> reachable (run evs s)"
  unfolding run_def
  by (induction evs arbitrary: s) (simp_all add: reachable_step)

subsection \<open>An idle send stays idle\<close>

lemma idle_step:
  assumes "idle n s" and "n < length (closures s)"
  shows "idle n (step e s) \<and> attemptsOf n (step e s) = attemptsOf n s \<and>
         reloadsOf n (step e s) = reloadsOf n s \<and> n < length (closures (step e s))"
proof (cases e)
  case (SendResolved p tx r now)
  obtain P where P: "pendingTimers (clearTimers p s) = filter P (pendingTimers s)"
    using pendingTimers_clearTimers_filter by blast
  show ?thesis
    using assms P unfolding SendResolved
    by (auto simp: idle_def timersOf_def awaitingOf_def attemptsOf_def reloadsOf_def
          handleSendResolved_fields filter_empty_conv)
next
  case (TimerFires tid)
  show ?thesis
  proof (cases "find (\<lambda>t. timer_id t = tid) (pendingTimers s)")
    case None
    then show ?thesis using assms TimerFires by simp
  next
    case (Some t)
    then have "t \<in> set (pendingTimers s)" using find_timer by blast
    then have "timer_send t \<noteq> n"
      using assms(1) by (auto simp: idle_def timersOf_def filter_empty_conv)
    then show ?thesis
      using assms Some unfolding TimerFires
      by (auto simp: idle_def timersOf_def awaitingOf_def attemptsOf_def reloadsOf_def
            pollForMessage_start_def filter_empty_conv)
  qed
next
  case (FetchReturns m a fetched)
  show ?thesis
  proof (cases "(m, a) \<in> set (awaiting s)")
    case False
    then show ?thesis using assms FetchReturns by simp
  next
    case True
    let ?s1 = "s\<lparr>awaiting := remove1 (m, a) (awaiting s)\<rparr>"
    have mn: "m \<noteq> n"
      using assms(1) True by (force simp: idle_def awaitingOf_def filter_empty_conv)
    have i1: "idle n ?s1"
      using assms(1) mn by (simp add: idle_def timersOf_def awaitingOf_def awaitingOf_remove1)
    have "idle n (pollForMessage_resume m a fetched ?s1) \<and>
          attemptsOf n (pollForMessage_resume m a fetched ?s1) = attemptsOf n s \<and>
          reloadsOf n (pollForMessage_resume m a fetched ?s1) = reloadsOf n s \<and>
          n < length (closures (pollForMessage_resume m a fetched ?s1))"
    proof (rule pollForMessage_resume_cases[where m=m and a=a and fetched=fetched and s="?s1"],
        goal_cases Found Retry Reload Stop)
      case (Found data p)
      then show ?case
        using i1 assms(2)
        by (auto simp: idle_def timersOf_def awaitingOf_def attemptsOf_def reloadsOf_def
              pendingTimers_clearTimers filter_empty_conv split: option.splits)
    next
      case Retry
      then show ?case
        using i1 assms(2) mn
        by (auto simp: idle_def timersOf_def awaitingOf_def attemptsOf_def reloadsOf_def)
    next
      case (Reload data)
      then show ?case
        using i1 assms(2) mn
        by (auto simp: idle_def timersOf_def awaitingOf_def attemptsOf_def reloadsOf_def)
    next
      case Stop
      then show ?case
        using i1 assms(2) by (simp add: attemptsOf_def reloadsOf_def)
    qed
    then show ?thesis using True FetchReturns by simp
  qed
next
  case (MessagesSet ms)
  then show ?thesis
    using assms by (simp add: idle_def timersOf_def awaitingOf_def attemptsOf_def reloadsOf_def)
qed

lemma idle_run:
  assumes "idle n s" and "n < length (closures s)"
  shows "idle n (run evs s) \<and> attemptsOf n (run evs s) = attemptsOf n s \<and>
         reloadsOf n (run evs s) = reloadsOf n s"
  using assms
proof (induction evs arbitrary: s)
  case Nil
  then show ?case by (simp add: run_def)
next
  case (Cons e evs)
  have st: "idle n (step e s) \<and> attemptsOf n (step e s) = attemptsOf n s \<and>
         reloadsOf n (step e s) = reloadsOf n s \<and> n < length (closures (step e s))"
    using idle_step[OF Cons.prems] .
  have "run (e # evs) s = run evs (step e s)" by (simp add: run_def)
  then show ?case using Cons.IH[of "step e s"] st by simp
qed

subsection \<open>Timeouts are recorded under the phone number of their send\<close>

lemma selectedPhoneNumber_found:
  "selectedPhoneNumber ((cs[m := (cs ! m)\<lparr>messageFound := True\<rparr>]) ! k) =
     selectedPhoneNumber (cs ! k)"
  by (cases "m < length cs"; cases "k = m") (simp_all add: list_update_beyond)

lemma registered_cleared:
  assumes "registered s" and "t \<in> set (pendingTimers (clearTimers p s))"
  shows "t \<in> set (pendingTimers s) \<and> timerPhone s t \<noteq> p"
proof (cases "retryTimers s p")
  case None
  then have t: "t \<in> set (pendingTimers s)" using assms(2) by (simp add: pendingTimers_clearTimers)
  then have "retryTimers s (timerPhone s t) \<noteq> None" using assms(1) by (auto simp: registered_def)
  then show ?thesis using None t by auto
next
  case (Some ts)
  then have t: "t \<in> set (pendingTimers s)" and n: "timer_id t \<notin> set ts"
    using assms(2) by (simp_all add: pendingTimers_clearTimers)
  obtain ids where "retryTimers s (timerPhone s t) = Some ids" "timer_id t \<in> set ids"
    using assms(1) t by (auto simp: registered_def)
  then show ?thesis using Some t n by auto
qed

lemma registered_SendResolved:
  assumes "registered s" and "indexed s"
  shows "registered (step (SendResolved p tx r now) s)"
proof -
  let ?s' = "handleSendResolved p tx r now s"
  have "\<exists>ids. retryTimers ?s' (timerPhone ?s' t) = Some ids \<and> timer_id t \<in> set ids"
    if t: "t \<in> set (pendingTimers ?s')" for t
  proof (cases "t \<in> set (pendingTimers (clearTimers p s))")
    case True
    then have old: "t \<in> set (pendingTimers s)" and ph: "timerPhone s t \<noteq> p"
      using registered_cleared[OF assms(1)] by simp_all
    have "timer_send t < length (closures s)" using old assms(2) by (simp add: indexed_def)
    then have same: "timerPhone ?s' t = timerPhone s t"
      by (simp add: timerPhone_def handleSendResolved_fields nth_append)
    obtain ids where "retryTimers s (timerPhone s t) = Some ids" "timer_id t \<in> set ids"
      using assms(1) old by (auto simp: registered_def)
    then show ?thesis using same ph by (simp add: handleSendResolved_fields)
  next
    case False
    then have "t = \<lparr>timer_id = nextTimer s, timer_send = length (closures s),
                    timer_attempt = 0, timer_delay = pollDelays ! 0\<rparr>"
      using t by (simp add: handleSendResolved_fields)
    then show ?thesis by (simp add: timerPhone_def handleSendResolved_fields)
  qed
  then show ?thesis by (simp add: registered_def)
qed

lemma registered_TimerFires:
  assumes "registered s"
  shows "registered (step (TimerFires tid) s)"
  using assms
  by (auto simp: registered_def timerPhone_def pollForMessage_start_def split: option.splits)

lemma registered_FetchReturns:
  assumes "registered s"
  shows "registered (step (FetchReturns m a fetched) s)"
proof (cases "(m, a) \<in> set (awaiting s)")
  case False
  then show ?thesis using assms by simp
next
  case True
  let ?s1 = "s\<lparr>awaiting := remove1 (m, a) (awaiting s)\<rparr>"
  let ?q = "selectedPhoneNumber (closures ?s1 ! m)"
  have r1: "registered ?s1" using assms by (simp add: registered_def timerPhone_def)
  have "registered (pollForMessage_resume m a fetched ?s1)"
  proof (rule pollForMessage_resume_cases[where m=m and a=a and fetched=fetched and s="?s1"],
      goal_cases Found Retry Reload Stop)
    case (Found data p)
    let ?s2 = "?s1\<lparr>closures := (closures ?s1)[m := (closures ?s1 ! m)\<lparr>messageFound := True\<rparr>],
                   messages := (messages ?s1)
                     (?q \<mapsto> replaceInPlace (closure_correlationId (closures ?s1 ! m)) p
                                (messagesOf (messages ?s1) ?q))\<rparr>"
    have ph2: "timerPhone ?s2 t = timerPhone s t" for t
      by (simp add: timerPhone_def selectedPhoneNumber_found)
    have r2: "registered ?s2"
      using assms unfolding registered_def ph2 by simp
    have "\<exists>ids. retryTimers (clearTimers ?q ?s2) (timerPhone (clearTimers ?q ?s2) t) = Some ids \<and>
                timer_id t \<in> set ids"
      if t: "t \<in> set (pendingTimers (clearTimers ?q ?s2))" for t
    proof -
      have old: "t \<in> set (pendingTimers ?s2)" and ph: "timerPhone ?s2 t \<noteq> ?q"
        using registered_cleared[OF r2 t] by simp_all
      obtain ids where "retryTimers ?s2 (timerPhone ?s2 t) = Some ids" "timer_id t \<in> set ids"
        using r2 old unfolding registered_def by blast
      moreover have "timerPhone (clearTimers ?q ?s2) t = timerPhone ?s2 t"
        by (simp add: timerPhone_def)
      ultimately show ?thesis using ph by (auto split: option.splits)
    qed
    then have "registered (clearTimers ?q ?s2)" unfolding registered_def by blast
    then show ?case unfolding Found(3) by simp
  next
    case Retry
    show ?case
      unfolding Retry(3) registered_def
    proof
      fix t
      assume "t \<in> set (pendingTimers (schedulePoll m (Suc a) ?q ?s1))"
      then consider (new) "t = \<lparr>timer_id = nextTimer ?s1, timer_send = m, timer_attempt = Suc a,
                                timer_delay = pollDelays ! Suc a\<rparr>"
        | (old) "t \<in> set (pendingTimers s)" by auto
      then show "\<exists>ids. retryTimers (schedulePoll m (Suc a) ?q ?s1)
                        (timerPhone (schedulePoll m (Suc a) ?q ?s1) t) = Some ids \<and>
                      timer_id t \<in> set ids"
      proof cases
        case new
        then show ?thesis by (simp add: timerPhone_def)
      next
        case old
        then obtain ids where "retryTimers s (timerPhone s t) = Some ids" "timer_id t \<in> set ids"
          using assms by (auto simp: registered_def)
        then show ?thesis by (auto simp: timerPhone_def)
      qed
    qed
  next
    case (Reload data)
    then show ?case using r1 by (simp add: registered_def timerPhone_def)
  next
    case Stop
    then show ?case using r1 by simp
  qed
  then show ?thesis using True by simp
qed

lemma registered_step:
  assumes "registered s" and "indexed s"
  shows "registered (step e s)"
proof (cases e)
  case (SendResolved p tx r now)
  then show ?thesis using registered_SendResolved[OF assms] by simp
next
  case (TimerFires tid)
  then show ?thesis using registered_TimerFires[OF assms(1)] by simp
next
  case (FetchReturns m a fetched)
  then show ?thesis using registered_FetchReturns[OF assms(1)] by simp
next
  case (MessagesSet ms)
  then show ?thesis using assms(1) by (simp add: registered_def timerPhone_def)
qed

lemma reachable_registered:
  assumes "reachable s"
  shows "registered s"
  using assms
proof (induction rule: reachable.induct)
  case reachable_init
  show ?case by (simp add: registered_def initialState_def)
next
  case (reachable_step s e)
  then show ?case using registered_step reachable_invariants by blast
qed

subsection \<open>What a returning fetch does to its send\<close>

lemma awaiting_chain:
  assumes "chain n s" and "(n, a) \<in> set (awaiting s)"
  shows "timersOf n s = []" and "awaitingOf n s = [a]" and "Suc a = length (attemptsOf n s)"
    and "reloadsOf n s = 0" and "\<not> messageFound (closures s ! n)"
proof -
  have "a \<in> set (awaitingOf n s)" using assms(2) by (force simp: awaitingOf_def)
  then have ne: "awaitingOf n s \<noteq> []" by auto
  obtain a' where c: "timersOf n s = []" "awaitingOf n s = [a']"
      "Suc a' = length (attemptsOf n s)" "reloadsOf n s = 0"
      "\<not> messageFound (closures s ! n)"
    using chain_awaiting[OF assms(1) ne] by blast
  have aa: "a' = a" using \<open>a \<in> set (awaitingOf n s)\<close> c(2) by simp
  show "timersOf n s = []" "awaitingOf n s = [a]" "Suc a = length (attemptsOf n s)"
    "reloadsOf n s = 0" "\<not> messageFound (closures s ! n)"
    using c aa by simp_all
qed

lemma fetch_found:
  assumes "chain n s" and "(n, a) \<in> set (awaiting s)"
      and "find (\<lambda>x. corrKey x = closure_correlationId (closures s ! n)) data = Some p"
  shows "idle n (step (FetchReturns n a (Inr data)) s)"
    and "attemptsOf n (step (FetchReturns n a (Inr data)) s) = attemptsOf n s"
    and "reloadsOf n (step (FetchReturns n a (Inr data)) s) = 0"
    and "messagesOf (messages (step (FetchReturns n a (Inr data)) s))
           (selectedPhoneNumber (closures s ! n)) =
         map (\<lambda>m. if corrKey m = closure_correlationId (closures s ! n) then p else m)
           (messagesOf (messages s) (selectedPhoneNumber (closures s ! n)))"
    and "length (closures (step (FetchReturns n a (Inr data)) s)) = length (closures s)"
proof -
  note c = awaiting_chain[OF assms(1,2)]
  let ?s1 = "s\<lparr>awaiting := remove1 (n, a) (awaiting s)\<rparr>"
  let ?q = "selectedPhoneNumber (closures s ! n)"
  let ?s2 = "?s1\<lparr>closures := (closures s)[n := (closures s ! n)\<lparr>messageFound := True\<rparr>],
                 messages := (messages s)
                   (?q \<mapsto> replaceInPlace (closure_correlationId (closures s ! n)) p
                              (messagesOf (messages s) ?q))\<rparr>"
  have eq: "step (FetchReturns n a (Inr data)) s = clearTimers ?q ?s2"
    using assms(2,3) by (simp add: pollForMessage_resume_def Let_def)
  obtain P where P: "pendingTimers (clearTimers ?q ?s2) = filter P (pendingTimers ?s2)"
    using pendingTimers_clearTimers_filter by blast
  have "timersOf n (clearTimers ?q ?s2) = filter P (timersOf n ?s2)"
    by (rule timersOf_filter_pending[OF P])
  moreover have "timersOf n ?s2 = []" using c(1) by (simp add: timersOf_def)
  moreover have "awaitingOf n (clearTimers ?q ?s2) = []"
    using c(2) by (simp add: awaitingOf_def awaitingOf_remove1)
  ultimately show "idle n (step (FetchReturns n a (Inr data)) s)"
    unfolding eq by (simp add: idle_def)
  show "attemptsOf n (step (FetchReturns n a (Inr data)) s) = attemptsOf n s"
    unfolding eq by (simp add: attemptsOf_def)
  show "reloadsOf n (step (FetchReturns n a (Inr data)) s) = 0"
    unfolding eq using c(4) by (simp add: reloadsOf_def)
  show "messagesOf (messages (step (FetchReturns n a (Inr data)) s)) ?q =
         map (\<lambda>m. if corrKey m = closure_correlationId (closures s ! n) then p else m)
           (messagesOf (messages s) ?q)"
    unfolding eq by (simp add: messagesOf_def replaceInPlace_def)
  show "length (closures (step (FetchReturns n a (Inr data)) s)) = length (closures s)"
    unfolding eq by simp
qed

lemma fetch_retry:
  assumes "chain n s" and "(n, a) \<in> set (awaiting s)" and "a < 3"
      and "\<forall>data. fetched = Inr data \<longrightarrow>
             find (\<lambda>x. corrKey x = closure_correlationId (closures s ! n)) data = None"
  shows "timersOf n (step (FetchReturns n a fetched) s) =
           [\<lparr>timer_id = nextTimer s, timer_send = n, timer_attempt = Suc a,
             timer_delay = pollDelays ! Suc a\<rparr>]"
    and "reloadsOf n (step (FetchReturns n a fetched) s) = 0"
proof -
  note c = awaiting_chain[OF assms(1,2)]
  let ?s1 = "s\<lparr>awaiting := remove1 (n, a) (awaiting s)\<rparr>"
  have eq: "step (FetchReturns n a fetched) s =
              schedulePoll n (Suc a) (selectedPhoneNumber (closures s ! n)) ?s1"
    using assms(2,3,4) c(5)
    by (cases fetched) (simp_all add: pollForMessage_resume_def Let_def pollDelays_def)
  show "timersOf n (step (FetchReturns n a fetched) s) =
           [\<lparr>timer_id = nextTimer s, timer_send = n, timer_attempt = Suc a,
             timer_delay = pollDelays ! Suc a\<rparr>]"
    unfolding eq using c(1) by (simp add: timersOf_def)
  show "reloadsOf n (step (FetchReturns n a fetched) s) = 0"
    unfolding eq using c(4) by (simp add: reloadsOf_def)
qed

lemma fetch_exhausted:
  assumes "chain n s" and "(n, 3) \<in> set (awaiting s)"
      and "find (\<lambda>x. corrKey x = closure_correlationId (closures s ! n)) data = None"
  shows "idle n (step (FetchReturns n 3 (Inr data)) s)"
    and "attemptsOf n (step (FetchReturns n 3 (Inr data)) s) = [0, 1, 2, 3]"
    and "reloadsOf n (step (FetchReturns n 3 (Inr data)) s) = 1"
    and "length (closures (step (FetchReturns n 3 (Inr data)) s)) = length (closures s)"
proof -
  note c = awaiting_chain[OF assms(1,2)]
  let ?s1 = "s\<lparr>awaiting := remove1 (n, 3) (awaiting s)\<rparr>"
  have eq: "step (FetchReturns n 3 (Inr data)) s = ?s1\<lparr>reloads := reloads s @ [n]\<rparr>"
    using assms(2,3) c(5) by (simp add: pollForMessage_resume_def Let_def pollDelays_def)
  have seq: "attemptsOf n s = [0..<length (attemptsOf n s)]"
    using assms(1) by (simp add: chain_def)
  have "length (attemptsOf n s) = 4" using c(3) by simp
  then have "attemptsOf n s = [0..<4]" using seq by simp
  moreover have "[0..<4] = [0, 1, 2, 3::nat]" by code_simp
  ultimately have four: "attemptsOf n s = [0, 1, 2, 3]" by simp
  show "idle n (step (FetchReturns n 3 (Inr data)) s)"
    unfolding eq using c(1,2)
    by (simp add: idle_def timersOf_def awaitingOf_def awaitingOf_remove1)
  show "attemptsOf n (step (FetchReturns n 3 (Inr data)) s) = [0, 1, 2, 3]"
    unfolding eq using four by (simp add: attemptsOf_def)
  show "reloadsOf n (step (FetchReturns n 3 (Inr data)) s) = 1"
    unfolding eq using c(4) by (simp add: reloadsOf_def)
  show "length (closures (step (FetchReturns n 3 (Inr data)) s)) = length (closures s)"
    unfolding eq by simp
qed

lemma fetch_failed_last:
  assumes "chain n s" and "(n, 3) \<in> set (awaiting s)"
  shows "idle n (step (FetchReturns n 3 (Inl e)) s)"
    and "attemptsOf n (step (FetchReturns n 3 (Inl e)) s) = [0, 1, 2, 3]"
    and "reloadsOf n (step (FetchReturns n 3 (Inl e)) s) = 0"
    and "length (closures (step (FetchReturns n 3 (Inl e)) s)) = length (closures s)"
proof -
  note c = awaiting_chain[OF assms(1,2)]
  let ?s1 = "s\<lparr>awaiting := remove1 (n, 3) (awaiting s)\<rparr>"
  have eq: "step (FetchReturns n 3 (Inl e)) s = ?s1"
    using assms(2) by (simp add: pollForMessage_resume_def Let_def pollDelays_def)
  have seq: "attemptsOf n s = [0..<length (attemptsOf n s)]"
    using assms(1) by (simp add: chain_def)
  have "length (attemptsOf n s) = 4" using c(3) by simp
  then have "attemptsOf n s = [0..<4]" using seq by simp
  moreover have "[0..<4] = [0, 1, 2, 3::nat]" by code_simp
  ultimately have four: "attemptsOf n s = [0, 1, 2, 3]" by simp
  show "idle n (step (FetchReturns n 3 (Inl e)) s)"
    unfolding eq using c(1,2)
    by (simp add: idle_def timersOf_def awaitingOf_def awaitingOf_remove1)
  show "attemptsOf n (step (FetchReturns n 3 (Inl e)) s) = [0, 1, 2, 3]"
    unfolding eq using four by (simp add: attemptsOf_def)
  show "reloadsOf n (step (FetchReturns n 3 (Inl e)) s) = 0"
    unfolding eq using c(4) by (simp add: reloadsOf_def)
  show "length (closures (step (FetchReturns n 3 (Inl e)) s)) = length (closures s)"
    unfolding eq by simp
qed

lemma awaiting_indexed: "indexed s \<Longrightarrow> (n, a) \<in> set (awaiting s) \<Longrightarrow> n < length (closures s)"
  by (force simp: indexed_def)

lemma timersOf_new_send:
  assumes "indexed s"
  shows "timersOf (length (closures s)) (step (SendResolved p tx r now) s) =
           [\<lparr>timer_id = nextTimer s, timer_send = length (closures s), timer_attempt = 0,
             timer_delay = 300\<rparr>]"
proof -
  obtain P where P: "pendingTimers (clearTimers p s) = filter P (pendingTimers s)"
    using pendingTimers_clearTimers_filter by blast
  show ?thesis
    using indexed_views_new(1)[OF assms] P
    by (auto simp: timersOf_def handleSendResolved_fields filter_empty_conv pollDelays_def)
qed

lemmas poll_defs =
  run_def initialState_def handleSendResolved_def clearTimers_def schedulePoll_def
  setTimeout_def pushTimer_def pollForMessage_start_def pollForMessage_resume_def
  pollDelays_def messagesOf_def optimisticMessage_def replaceInPlace_def corrKey_def

lemma scenarioPolling_state:
  "scenarioPolling =
     \<lparr>messages = [''+15551234567'' \<mapsto> [scenarioOptimistic]],
      retryTimers = [''+15551234567'' \<mapsto> [0]],
      pendingTimers = [],
      awaiting = [(0, 0)],
      closures = [\<lparr>selectedPhoneNumber = ''+15551234567'', closure_correlationId = ''r1'',
                   messageFound = False\<rparr>],
      nextTimer = 1, fetches = [(0, 0)], reloads = []\<rparr>"
  by (simp add: scenarioPolling_def scenarioOptimistic_def scenarioResponse_def poll_defs)

lemma small_numerals:
  "(2::nat) = Suc (Suc 0)" "(3::nat) = Suc (Suc (Suc 0))" "(4::nat) = Suc (Suc (Suc (Suc 0)))"
  by simp_all

lemma scenarioLastAttempt_state:
  "scenarioLastAttempt =
     \<lparr>messages = [''+15551234567'' \<mapsto> [scenarioOptimistic]],
      retryTimers = [''+15551234567'' \<mapsto> [0, 1, 2, 3]],
      pendingTimers = [],
      awaiting = [(0, 3)],
      closures = [\<lparr>selectedPhoneNumber = ''+15551234567'', closure_correlationId = ''r1'',
                   messageFound = False\<rparr>],
      nextTimer = 4, fetches = [(0, 0), (0, 1), (0, 2), (0, 3)], reloads = []\<rparr>"
  by (simp add: scenarioLastAttempt_def scenarioPolling_state poll_defs small_numerals)

lemma reachable_scenarioPolling: "reachable scenarioPolling"
  unfolding scenarioPolling_def by (rule reachable_run[OF reachable_init])

lemma reachable_scenarioLastAttempt: "reachable scenarioLastAttempt"
  unfolding scenarioLastAttempt_def by (rule reachable_run[OF reachable_scenarioPolling])

text \<open>
  The poll schedule of a send. In every reachable state and for every send: the attempts
  made so far are \<open>0, 1, ...\<close> in order and at most four; every pending poll timeout is
  for an attempt below four and has the delay 300, 600, 800 or 1200 ms of that attempt,
  the send itself setting the timeout of attempt 0; and the send has reloaded at most
  once. When the fetch of an attempt returns a list with an entry whose correlation key
  is the send's, the first such entry replaces in place every local entry with that key
  and no other entry, and from then on, whatever happens, the send has no timeout and no
  poll, makes no further attempt and never reloads. When the fetch of an attempt before
  the fourth fails or returns no such entry, the timeout of the next attempt is set.
  When the fetch of the fourth attempt returns a list with no such entry, the send
  reloads once, and from then on, whatever happens, it has no timeout and no poll, its
  attempts stay the four made and its reloads stay one.
\<close>

theorem delivery_poller_schedule:
  assumes "reachable s"
  shows
    "attemptsOf n s = [0..<length (attemptsOf n s)] \<and>
     length (attemptsOf n s) \<le> 4 \<and>
     reloadsOf n s \<le> 1 \<and>
     (\<forall>t \<in> set (pendingTimers s).
        timer_attempt t < 4 \<and> timer_delay t = [300, 600, 800, 1200] ! timer_attempt t) \<and>
     timersOf (length (closures s)) (step (SendResolved phone messageText response now) s) =
       [\<lparr>timer_id = nextTimer s, timer_send = length (closures s), timer_attempt = 0,
         timer_delay = 300\<rparr>] \<and>
     ((n, a) \<in> set (awaiting s) \<and>
      find (\<lambda>x. corrKey x = closure_correlationId (closures s ! n)) data = Some p \<longrightarrow>
        messagesOf (messages (step (FetchReturns n a (Inr data)) s))
            (selectedPhoneNumber (closures s ! n)) =
          map (\<lambda>m. if corrKey m = closure_correlationId (closures s ! n) then p else m)
            (messagesOf (messages s) (selectedPhoneNumber (closures s ! n))) \<and>
        (\<forall>evs. idle n (run evs (step (FetchReturns n a (Inr data)) s)) \<and>
               attemptsOf n (run evs (step (FetchReturns n a (Inr data)) s)) = attemptsOf n s \<and>
               reloadsOf n (run evs (step (FetchReturns n a (Inr data)) s)) = 0)) \<and>
     ((n, a) \<in> set (awaiting s) \<and> a < 3 \<and>
      (\<forall>d. fetched = Inr d \<longrightarrow>
           find (\<lambda>x. corrKey x = closure_correlationId (closures s ! n)) d = None) \<longrightarrow>
        timersOf n (step (FetchReturns n a fetched) s) =
          [\<lparr>timer_id = nextTimer s, timer_send = n, timer_attempt = Suc a,
            timer_delay = [300, 600, 800, 1200] ! Suc a\<rparr>] \<and>
        reloadsOf n (step (FetchReturns n a fetched) s) = 0) \<and>
     ((n, 3) \<in> set (awaiting s) \<and>
      find (\<lambda>x. corrKey x = closure_correlationId (closures s ! n)) data = None \<longrightarrow>
        (\<forall>evs. idle n (run evs (step (FetchReturns n 3 (Inr data)) s)) \<and>
               attemptsOf n (run evs (step (FetchReturns n 3 (Inr data)) s)) = [0, 1, 2, 3] \<and>
               reloadsOf n (run evs (step (FetchReturns n 3 (Inr data)) s)) = 1))"
proof -
  have inv: "indexed s" "scheduled s" "chain n s"
    using reachable_invariants[OF assms] by simp_all
  have c1: "attemptsOf n s = [0..<length (attemptsOf n s)]"
    and c2: "length (attemptsOf n s) \<le> 4" and c3: "reloadsOf n s \<le> 1"
    using inv(3) by (simp_all add: chain_def)
  have c4: "\<forall>t \<in> set (pendingTimers s).
        timer_attempt t < 4 \<and> timer_delay t = [300, 600, 800, 1200] ! timer_attempt t"
    using inv(2) by (auto simp: scheduled_def pollDelays_def)
  note c5 = timersOf_new_send[OF inv(1), of phone messageText response now]
  have c6: "(n, a) \<in> set (awaiting s) \<and>
      find (\<lambda>x. corrKey x = closure_correlationId (closures s ! n)) data = Some p \<longrightarrow>
        messagesOf (messages (step (FetchReturns n a (Inr data)) s))
            (selectedPhoneNumber (closures s ! n)) =
          map (\<lambda>m. if corrKey m = closure_correlationId (closures s ! n) then p else m)
            (messagesOf (messages s) (selectedPhoneNumber (closures s ! n))) \<and>
        (\<forall>evs. idle n (run evs (step (FetchReturns n a (Inr data)) s)) \<and>
               attemptsOf n (run evs (step (FetchReturns n a (Inr data)) s)) = attemptsOf n s \<and>
               reloadsOf n (run evs (step (FetchReturns n a (Inr data)) s)) = 0)"
  proof (intro impI, elim conjE)
    assume aw: "(n, a) \<in> set (awaiting s)"
      and f: "find (\<lambda>x. corrKey x = closure_correlationId (closures s ! n)) data = Some p"
    let ?s' = "step (FetchReturns n a (Inr data)) s"
    note ff = fetch_found[OF inv(3) aw f]
    have lt: "n < length (closures ?s')"
      using awaiting_indexed[OF inv(1) aw] ff(5) by simp
    have "idle n (run evs ?s') \<and> attemptsOf n (run evs ?s') = attemptsOf n s \<and>
          reloadsOf n (run evs ?s') = 0" for evs
      using idle_run[OF ff(1) lt, of evs] by (simp only: ff(2,3))
    then show "messagesOf (messages ?s') (selectedPhoneNumber (closures s ! n)) =
          map (\<lambda>m. if corrKey m = closure_correlationId (closures s ! n) then p else m)
            (messagesOf (messages s) (selectedPhoneNumber (closures s ! n))) \<and>
        (\<forall>evs. idle n (run evs ?s') \<and> attemptsOf n (run evs ?s') = attemptsOf n s \<and>
               reloadsOf n (run evs ?s') = 0)"
      using ff(4) by blast
  qed
  have c7: "(n, a) \<in> set (awaiting s) \<and> a < 3 \<and>
      (\<forall>d. fetched = Inr d \<longrightarrow>
           find (\<lambda>x. corrKey x = closure_correlationId (closures s ! n)) d = None) \<longrightarrow>
        timersOf n (step (FetchReturns n a fetched) s) =
          [\<lparr>timer_id = nextTimer s, timer_send = n, timer_attempt = Suc a,
            timer_delay = [300, 600, 800, 1200] ! Suc a\<rparr>] \<and>
        reloadsOf n (step (FetchReturns n a fetched) s) = 0"
  proof (intro impI, elim conjE)
    assume aw: "(n, a) \<in> set (awaiting s)" and a: "a < 3"
      and f: "\<forall>d. fetched = Inr d \<longrightarrow>
           find (\<lambda>x. corrKey x = closure_correlationId (closures s ! n)) d = None"
    show "timersOf n (step (FetchReturns n a fetched) s) =
          [\<lparr>timer_id = nextTimer s, timer_send = n, timer_attempt = Suc a,
            timer_delay = [300, 600, 800, 1200] ! Suc a\<rparr>] \<and>
        reloadsOf n (step (FetchReturns n a fetched) s) = 0"
      using fetch_retry[OF inv(3) aw a f] by (simp only: pollDelays_def)
  qed
  have c8: "(n, 3) \<in> set (awaiting s) \<and>
      find (\<lambda>x. corrKey x = closure_correlationId (closures s ! n)) data = None \<longrightarrow>
        (\<forall>evs. idle n (run evs (step (FetchReturns n 3 (Inr data)) s)) \<and>
               attemptsOf n (run evs (step (FetchReturns n 3 (Inr data)) s)) = [0, 1, 2, 3] \<and>
               reloadsOf n (run evs (step (FetchReturns n 3 (Inr data)) s)) = 1)"
  proof (intro impI, elim conjE)
    assume aw: "(n, 3) \<in> set (awaiting s)"
      and f: "find (\<lambda>x. corrKey x = closure_correlationId (closures s ! n)) data = None"
    let ?s' = "step (FetchReturns n 3 (Inr data)) s"
    note fe = fetch_exhausted[OF inv(3) aw f]
    have lt: "n < length (closures ?s')"
      using awaiting_indexed[OF inv(1) aw] fe(4) by simp
    have "idle n (run evs ?s') \<and> attemptsOf n (run evs ?s') = [0, 1, 2, 3] \<and>
          reloadsOf n (run evs ?s') = 1" for evs
      using idle_run[OF fe(1) lt, of evs] by (simp only: fe(2,3))
    then show "\<forall>evs. idle n (run evs ?s') \<and> attemptsOf n (run evs ?s') = [0, 1, 2, 3] \<and>
               reloadsOf n (run evs ?s') = 1"
      by blast
  qed
  show ?thesis
    using c1 c2 c3 c4 c5 c6 c7 c8 by (intro conjI)
qed

lemma scenarioPersisted_key: "corrKey scenarioPersisted = ''r1''"
  by (simp add: scenarioPersisted_def corrKey_def)

theorem delivery_poller_schedule_witness:
  "reachable scenarioPolling \<and> (0, 0) \<in> set (awaiting scenarioPolling) \<and>
   find (\<lambda>x. corrKey x = closure_correlationId (closures scenarioPolling ! 0))
     [scenarioPersisted] = Some scenarioPersisted \<and>
   messagesOf (messages (step (FetchReturns 0 0 (Inr [scenarioPersisted])) scenarioPolling))
     ''+15551234567'' = [scenarioPersisted] \<and>
   attemptsOf 0 (run [TimerFires 0, MessagesSet Map.empty]
     (step (FetchReturns 0 0 (Inr [scenarioPersisted])) scenarioPolling)) = [0] \<and>
   reloadsOf 0 (run [TimerFires 0, MessagesSet Map.empty]
     (step (FetchReturns 0 0 (Inr [scenarioPersisted])) scenarioPolling)) = 0 \<and>
   timersOf 0 (step (FetchReturns 0 0 (Inr [])) scenarioPolling) =
     [\<lparr>timer_id = 1, timer_send = 0, timer_attempt = 1, timer_delay = 600\<rparr>] \<and>
   reachable scenarioLastAttempt \<and> (0, 3) \<in> set (awaiting scenarioLastAttempt) \<and>
   find (\<lambda>x. corrKey x = closure_correlationId (closures scenarioLastAttempt ! 0)) [] = None \<and>
   attemptsOf 0 (run [TimerFires 3, MessagesSet Map.empty]
     (step (FetchReturns 0 3 (Inr [])) scenarioLastAttempt)) = [0, 1, 2, 3] \<and>
   reloadsOf 0 (run [TimerFires 3, MessagesSet Map.empty]
     (step (FetchReturns 0 3 (Inr [])) scenarioLastAttempt)) = 1"
proof -
  note r1 = reachable_scenarioPolling
  note r2 = reachable_scenarioLastAttempt
  have aw1: "(0, 0) \<in> set (awaiting scenarioPolling)" by (simp add: scenarioPolling_state)
  have aw2: "(0, 3) \<in> set (awaiting scenarioLastAttempt)"
    by (simp add: scenarioLastAttempt_state)
  have f1: "find (\<lambda>x. corrKey x = closure_correlationId (closures scenarioPolling ! 0))
              [scenarioPersisted] = Some scenarioPersisted"
    by (simp add: scenarioPolling_state scenarioPersisted_key)
  have f0: "\<forall>d. (Inr [] :: string + message list) = Inr d \<longrightarrow>
              find (\<lambda>x. corrKey x = closure_correlationId (closures scenarioPolling ! 0)) d = None"
    by simp
  have f2: "find (\<lambda>x. corrKey x = closure_correlationId (closures scenarioLastAttempt ! 0)) [] =
              None"
    by simp
  note t1 = delivery_poller_schedule[OF r1, where n = 0 and a = 0
              and data = "[scenarioPersisted]" and p = scenarioPersisted and fetched = "Inr []"]
  note t2 = delivery_poller_schedule[OF r2, where n = 0 and data = "[]"]
  have m: "messagesOf (messages (step (FetchReturns 0 0 (Inr [scenarioPersisted])) scenarioPolling))
             (selectedPhoneNumber (closures scenarioPolling ! 0)) =
           map (\<lambda>m. if corrKey m = closure_correlationId (closures scenarioPolling ! 0)
                    then scenarioPersisted else m)
             (messagesOf (messages scenarioPolling)
                (selectedPhoneNumber (closures scenarioPolling ! 0)))"
    and after1: "\<forall>evs.
        idle 0 (run evs (step (FetchReturns 0 0 (Inr [scenarioPersisted])) scenarioPolling)) \<and>
        attemptsOf 0 (run evs (step (FetchReturns 0 0 (Inr [scenarioPersisted])) scenarioPolling)) =
          attemptsOf 0 scenarioPolling \<and>
        reloadsOf 0 (run evs (step (FetchReturns 0 0 (Inr [scenarioPersisted])) scenarioPolling)) = 0"
    using t1 aw1 f1 by blast+
  have next1: "timersOf 0 (step (FetchReturns 0 0 (Inr [])) scenarioPolling) =
          [\<lparr>timer_id = nextTimer scenarioPolling, timer_send = 0, timer_attempt = Suc 0,
            timer_delay = [300, 600, 800, 1200] ! Suc 0\<rparr>]"
    using t1 aw1 f0 by simp
  have after2: "\<forall>evs.
        idle 0 (run evs (step (FetchReturns 0 3 (Inr [])) scenarioLastAttempt)) \<and>
        attemptsOf 0 (run evs (step (FetchReturns 0 3 (Inr [])) scenarioLastAttempt)) =
          [0, 1, 2, 3] \<and>
        reloadsOf 0 (run evs (step (FetchReturns 0 3 (Inr [])) scenarioLastAttempt)) = 1"
    using t2 aw2 f2 by blast
  have m': "messagesOf (messages (step (FetchReturns 0 0 (Inr [scenarioPersisted])) scenarioPolling))
     ''+15551234567'' = [scenarioPersisted]"
    using m by (simp add: scenarioPolling_state messagesOf_def replaceInPlace_def
        scenarioOptimistic_def corrKey_optimisticMessage scenarioResponse_def)
  have a0: "attemptsOf 0 scenarioPolling = [0]"
    by (simp add: scenarioPolling_state attemptsOf_def)
  have next1': "timersOf 0 (step (FetchReturns 0 0 (Inr [])) scenarioPolling) =
     [\<lparr>timer_id = 1, timer_send = 0, timer_attempt = 1, timer_delay = 600\<rparr>]"
    using next1 by (simp add: scenarioPolling_state)
  show ?thesis
    using r1 aw1 f1 m' spec[OF after1, of "[TimerFires 0, MessagesSet Map.empty]"] a0 next1'
      r2 aw2 f2 spec[OF after2, of "[TimerFires 3, MessagesSet Map.empty]"]
    by simp
qed

text \<open>
  C4. The claim fails of the code where the fetch of the fourth attempt throws. In every
  reachable state, for a send whose fourth poll is waiting for its fetch: when that
  fetch throws, the \<open>catch\<close> block sets no timeout and calls no \<open>loadMessages\<close>, so the
  four attempts are used up without a match and from then on, whatever happens, the send
  has no timeout and no poll and has made no reconciliation refresh at all. When the
  same fetch returns a list without the send's entry, the \<open>try\<close> path makes the one
  refresh.
\<close>

theorem delivery_poller_no_refresh_after_failed_fetch:
  assumes "reachable s" and "(n, 3) \<in> set (awaiting s)"
  shows "idle n (run evs (step (FetchReturns n 3 (Inl e)) s)) \<and>
         attemptsOf n (run evs (step (FetchReturns n 3 (Inl e)) s)) = [0, 1, 2, 3] \<and>
         reloadsOf n (run evs (step (FetchReturns n 3 (Inl e)) s)) = 0 \<and>
         reloadsOf n (run evs (step (FetchReturns n 3 (Inr [])) s)) = 1"
proof -
  have inv: "indexed s" "chain n s"
    using reachable_invariants[OF assms(1)] by simp_all
  let ?failed = "step (FetchReturns n 3 (Inl e)) s"
  let ?empty = "step (FetchReturns n 3 (Inr [])) s"
  note ff = fetch_failed_last[OF inv(2) assms(2), of e]
  have lt: "n < length (closures ?failed)"
    using awaiting_indexed[OF inv(1) assms(2)] ff(4) by simp
  have failed: "idle n (run evs ?failed) \<and> attemptsOf n (run evs ?failed) = [0, 1, 2, 3] \<and>
      reloadsOf n (run evs ?failed) = 0"
    using idle_run[OF ff(1) lt, of evs] by (simp only: ff(2,3))
  have none: "find (\<lambda>x. corrKey x = closure_correlationId (closures s ! n)) [] = None"
    by simp
  note fe = fetch_exhausted[OF inv(2) assms(2) none]
  have lt': "n < length (closures ?empty)"
    using awaiting_indexed[OF inv(1) assms(2)] fe(4) by simp
  have empty: "reloadsOf n (run evs ?empty) = 1"
    using idle_run[OF fe(1) lt', of evs] by (simp only: fe(3))
  show ?thesis
    using failed empty by simp
qed

theorem delivery_poller_no_refresh_after_failed_fetch_witness:
  "reachable scenarioLastAttempt \<and> (0, 3) \<in> set (awaiting scenarioLastAttempt) \<and>
   attemptsOf 0 (run [] (step (FetchReturns 0 3 (Inl ''Network Error'')) scenarioLastAttempt)) =
     [0, 1, 2, 3] \<and>
   reloadsOf 0 (run [] (step (FetchReturns 0 3 (Inl ''Network Error'')) scenarioLastAttempt)) = 0 \<and>
   reloadsOf 0 (run [] (step (FetchReturns 0 3 (Inr [])) scenarioLastAttempt)) = 1 \<and>
   pendingTimers (step (FetchReturns 0 3 (Inl ''Network Error'')) scenarioLastAttempt) = [] \<and>
   awaiting (step (FetchReturns 0 3 (Inl ''Network Error'')) scenarioLastAttempt) = [] \<and>
   reloads (step (FetchReturns 0 3 (Inl ''Network Error'')) scenarioLastAttempt) = [] \<and>
   reloads (step (FetchReturns 0 3 (Inr [])) scenarioLastAttempt) = [0]"
proof -
  note r = reachable_scenarioLastAttempt
  have aw: "(0, 3) \<in> set (awaiting scenarioLastAttempt)"
    by (simp add: scenarioLastAttempt_state)
  note t = delivery_poller_no_refresh_after_failed_fetch
             [OF r aw, of "[]" "''Network Error''"]
  have state: "pendingTimers (step (FetchReturns 0 3 (Inl ''Network Error'')) scenarioLastAttempt) = [] \<and>
   awaiting (step (FetchReturns 0 3 (Inl ''Network Error'')) scenarioLastAttempt) = [] \<and>
   reloads (step (FetchReturns 0 3 (Inl ''Network Error'')) scenarioLastAttempt) = [] \<and>
   reloads (step (FetchReturns 0 3 (Inr [])) scenarioLastAttempt) = [0]"
    by (simp add: scenarioLastAttempt_state poll_defs)
  show ?thesis
    using r aw conjunct2[OF t] state by (intro conjI) simp_all
qed

text \<open>
  C6 (amended). Poll timeouts are recorded per recipient, and a new send to a recipient
  first clears every pending poll timeout of that recipient: in every reachable state,
  right after a send to a recipient starts polling, the only pending poll timeout of that
  recipient is the one of the new send's first attempt, so the new send is the only send
  with a pending poll timeout for the recipient. (A poll of an earlier send whose fetch
  is in flight at that moment is not cancelled.)
\<close>

theorem new_send_clears_pending_timers:
  assumes "reachable s"
  shows
    "filter (\<lambda>t. timerPhone (step (SendResolved phone messageText response now) s) t = phone)
       (pendingTimers (step (SendResolved phone messageText response now) s)) =
       [\<lparr>timer_id = nextTimer s, timer_send = length (closures s), timer_attempt = 0,
         timer_delay = 300\<rparr>] \<and>
     pollingSends phone (step (SendResolved phone messageText response now) s) =
       [length (closures s)]"
proof -
  let ?s' = "step (SendResolved phone messageText response now) s"
  let ?new = "\<lparr>timer_id = nextTimer s, timer_send = length (closures s), timer_attempt = 0,
                timer_delay = 300\<rparr>"
  have reg: "registered s" by (rule reachable_registered[OF assms])
  have idx: "indexed s" using reachable_invariants[OF assms] by simp
  have pend: "pendingTimers ?s' = pendingTimers (clearTimers phone s) @ [?new]"
    by (simp add: handleSendResolved_fields pollDelays_def)
  have other: "timerPhone ?s' t \<noteq> phone" if t: "t \<in> set (pendingTimers (clearTimers phone s))" for t
  proof -
    have old: "t \<in> set (pendingTimers s)" and ph: "timerPhone s t \<noteq> phone"
      using registered_cleared[OF reg t] by simp_all
    have "timer_send t < length (closures s)" using old idx by (simp add: indexed_def)
    then have "timerPhone ?s' t = timerPhone s t"
      by (simp add: timerPhone_def handleSendResolved_fields nth_append)
    then show ?thesis using ph by simp
  qed
  have "filter (\<lambda>t. timerPhone ?s' t = phone) (pendingTimers (clearTimers phone s)) = []"
    using other by (simp add: filter_empty_conv)
  moreover have "timerPhone ?s' ?new = phone"
    by (simp add: timerPhone_def handleSendResolved_fields)
  ultimately have one: "filter (\<lambda>t. timerPhone ?s' t = phone) (pendingTimers ?s') = [?new]"
    unfolding pend by simp
  then show ?thesis by (simp add: pollingSends_def)
qed

lemma scenarioSent_state:
  "scenarioSent =
     \<lparr>messages = [''+15551234567'' \<mapsto> [scenarioOptimistic]],
      retryTimers = [''+15551234567'' \<mapsto> [0]],
      pendingTimers = [\<lparr>timer_id = 0, timer_send = 0, timer_attempt = 0, timer_delay = 300\<rparr>],
      awaiting = [],
      closures = [\<lparr>selectedPhoneNumber = ''+15551234567'', closure_correlationId = ''r1'',
                   messageFound = False\<rparr>],
      nextTimer = 1, fetches = [], reloads = []\<rparr>"
  by (simp add: scenarioSent_def scenarioOptimistic_def scenarioResponse_def poll_defs)

theorem new_send_clears_pending_timers_witness:
  "reachable scenarioSent \<and>
   pendingTimers scenarioSent =
     [\<lparr>timer_id = 0, timer_send = 0, timer_attempt = 0, timer_delay = 300\<rparr>] \<and>
   timerPhone scenarioSent \<lparr>timer_id = 0, timer_send = 0, timer_attempt = 0, timer_delay = 300\<rparr> =
     ''+15551234567'' \<and>
   pendingTimers (step (SendResolved ''+15551234567'' ''again'' scenarioSecondResponse 1400)
                    scenarioSent) =
     [\<lparr>timer_id = 1, timer_send = 1, timer_attempt = 0, timer_delay = 300\<rparr>] \<and>
   pollingSends ''+15551234567''
     (step (SendResolved ''+15551234567'' ''again'' scenarioSecondResponse 1400) scenarioSent) =
     [1]"
proof -
  have r: "reachable scenarioSent"
    unfolding scenarioSent_def by (rule reachable_run[OF reachable_init])
  note t = new_send_clears_pending_timers[OF r, of "''+15551234567''" "''again''"
             scenarioSecondResponse 1400]
  have p: "pollingSends ''+15551234567''
     (step (SendResolved ''+15551234567'' ''again'' scenarioSecondResponse 1400) scenarioSent) =
     [1]"
    using conjunct2[OF t] by (simp add: scenarioSent_state)
  show ?thesis
    using r p
    by (simp add: scenarioSent_state timerPhone_def scenarioSecondResponse_def poll_defs)
qed

text \<open>
  C6 as stated fails. The first poll of the first send is waiting for its fetch when a
  second send to the same number starts polling; the fetch then returns without a match
  and sets the timeout of the first send's next attempt. Two sends now have a pending poll
  timeout for the one recipient.
\<close>

theorem one_poll_sequence_counterexample:
  "pendingTimers
     (run [SendResolved ''+15551234567'' ''again'' scenarioSecondResponse 1400,
           FetchReturns 0 0 (Inr [])] scenarioPolling) =
     [\<lparr>timer_id = 1, timer_send = 1, timer_attempt = 0, timer_delay = 300\<rparr>,
      \<lparr>timer_id = 2, timer_send = 0, timer_attempt = 1, timer_delay = 600\<rparr>] \<and>
   pollingSends ''+15551234567''
     (run [SendResolved ''+15551234567'' ''again'' scenarioSecondResponse 1400,
           FetchReturns 0 0 (Inr [])] scenarioPolling) = [1, 0]"
  by (simp add: scenarioPolling_state scenarioSecondResponse_def pollingSends_def
        timerPhone_def poll_defs small_numerals)

end
